theory Spec2Isabelle
  imports
    Main
    "HOL-Library.Word"
    "HOL-Library.Multiset"
    "HOL-Library.List_Lexorder"
begin

unbundle bit_operations_syntax

chapter \<open>A shallow embedding of the bolt page layer, freelist and cursor\<close>

section \<open>Machine types, panics and pages\<close>

text \<open>
  \<^verbatim>\<open>type pgid uint64\<close> (page.go) and \<^verbatim>\<open>type txid uint64\<close> are 64-bit words: \<open>+\<close> and
  \<open>-\<close> wrap around, \<open>\<le>\<close> and \<open><\<close> compare unsigned. Go's \<^verbatim>\<open>int\<close> is the 64-bit signed
  integer of the targets the page header is laid out for; it is a 64-bit word read by
  \<open>sint\<close>, so that the conversion \<^verbatim>\<open>pgid(n)\<close> keeps the bits. Lengths and slice indices are
  natural numbers.
\<close>

type_synonym pgid = "64 word"
type_synonym txid = "64 word"
type_synonym goint = "64 word"

text \<open>
  A Go panic ends the call: every operation that can panic returns \<open>panic + 'a\<close>, with
  \<open>Inl\<close> the panic. The first constructors are the explicit \<^verbatim>\<open>panic(...)\<close> calls of the
  sources, the others are the run-time panics of indexing, slicing and dereferencing
  and a failed \<^verbatim>\<open>_assert\<close>.
\<close>

datatype panic =
    BadLen                       \<comment> \<open>mergepgids: \<^verbatim>\<open>mergepgids bad len\<close>\<close>
  | InvalidAllocation pgid       \<comment> \<open>allocate: \<^verbatim>\<open>invalid page allocation\<close>\<close>
  | CannotFree pgid              \<comment> \<open>free: \<^verbatim>\<open>cannot free page 0 or 1\<close>\<close>
  | AlreadyFreed pgid            \<comment> \<open>free: \<^verbatim>\<open>page already freed\<close>\<close>
  | InvalidPageType pgid "16 word" \<comment> \<open>search: \<^verbatim>\<open>invalid page type\<close>\<close>
  | AssertionFailed string       \<comment> \<open>\<^verbatim>\<open>_assert\<close>\<close>
  | IndexOutOfRange              \<comment> \<open>run time: index out of range\<close>
  | SliceOutOfRange              \<comment> \<open>run time: slice bounds out of range\<close>
  | NilDereference               \<comment> \<open>run time: nil pointer dereference\<close>

text \<open>The values of Go's \<^verbatim>\<open>error\<close> interface that the sources name; \<^verbatim>\<open>nil\<close> is \<open>None\<close>.\<close>

datatype error = ErrTxClosed | ErrTxNotWritable | ErrIncompatibleValue

text \<open>
  \<^verbatim>\<open>type page struct { id pgid; flags uint16; count uint16; overflow uint32; ptr uintptr }\<close>.
  The field \<^verbatim>\<open>ptr\<close> marks where the body starts; the sources read the body through
  casts of \<^verbatim>\<open>&p.ptr\<close> to an array type. The record is parametric in that typed view:
  for a freelist page it is the array \<^verbatim>\<open>(*[maxAllocSize]pgid)(unsafe.Pointer(&p.ptr))\<close>,
  a list whose length is \<^verbatim>\<open>maxAllocSize\<close> (the constant is declared outside the
  sources given, so no value is fixed for it here).
\<close>

record 'b page =
  pid :: pgid
  flags :: "16 word"
  pcount :: "16 word"
  overflow :: "32 word"
  ptr :: 'b

definition branchPageFlag :: "16 word" where "branchPageFlag = 0x01"
definition leafPageFlag :: "16 word" where "leafPageFlag = 0x02"
definition metaPageFlag :: "16 word" where "metaPageFlag = 0x04"
definition freelistPageFlag :: "16 word" where "freelistPageFlag = 0x10"
definition bucketLeafFlag :: "32 word" where "bucketLeafFlag = 0x01"

text \<open>Go's built-in \<^verbatim>\<open>copy(dst, src)\<close> overwrites the first \<open>min (len dst) (len src)\<close>
  slots of \<open>dst\<close>.\<close>

definition copy :: "'a list \<Rightarrow> 'a list \<Rightarrow> 'a list" where
  "copy dst src = take (length dst) src @ drop (length src) dst"

section \<open>Facts about 64-bit words\<close>

lemma unat_inc_less: "i < n \<Longrightarrow> unat (i + 1) = unat i + 1"
  for i n :: "'a::len word"
  by unat_arith

section \<open>The library search \<open>sort.Search\<close>\<close>

function search_loop :: "(nat \<Rightarrow> bool) \<Rightarrow> nat \<Rightarrow> nat \<Rightarrow> nat" where
  "search_loop f i j =
     (if i < j then
        (let h = (i + j) div 2 in
         if \<not> f h then search_loop f (h + 1) j else search_loop f i h)
      else i)"
  by pat_completeness auto
termination
  by (relation "measure (\<lambda>(f, i, j). j - i)") auto

declare search_loop.simps [simp del]

definition Search :: "nat \<Rightarrow> (nat \<Rightarrow> bool) \<Rightarrow> nat" where
  "Search n f = search_loop f 0 n"

lemma search_loop_stop: "\<not> i < j \<Longrightarrow> search_loop f i j = i"
  by (subst search_loop.simps) simp

lemma search_loop_left:
  "i < j \<Longrightarrow> \<not> f ((i + j) div 2) \<Longrightarrow> search_loop f i j = search_loop f ((i + j) div 2 + 1) j"
  by (subst search_loop.simps) (simp add: Let_def)

lemma search_loop_right:
  "i < j \<Longrightarrow> f ((i + j) div 2) \<Longrightarrow> search_loop f i j = search_loop f i ((i + j) div 2)"
  by (subst search_loop.simps) (simp add: Let_def)

lemmas search_loop_unfold = search_loop_stop search_loop_left search_loop_right

lemma search_loop_bounds: "i \<le> j \<Longrightarrow> i \<le> search_loop f i j \<and> search_loop f i j \<le> j"
proof (induction f i j rule: search_loop.induct)
  case (1 f i j)
  show ?case
  proof (cases "i < j")
    case False
    with "1.prems" show ?thesis by (simp add: search_loop_unfold)
  next
    case True
    let ?h = "(i + j) div 2"
    from True have h: "i \<le> ?h" "?h < j" by auto
    show ?thesis
    proof (cases "f ?h")
      case True
      with "1.IH"(2) [of ?h] h \<open>i < j\<close> show ?thesis
        by (simp add: search_loop_unfold)
    next
      case False
      with "1.IH"(1) [of ?h] h \<open>i < j\<close> show ?thesis
        by (simp add: search_loop_unfold)
    qed
  qed
qed

lemma search_loop_hit:
  "i \<le> j \<Longrightarrow> (j < n \<longrightarrow> f j) \<Longrightarrow> search_loop f i j < n \<Longrightarrow> f (search_loop f i j)"
proof (induction f i j rule: search_loop.induct)
  case (1 f i j)
  show ?case
  proof (cases "i < j")
    case False
    with "1.prems" show ?thesis by (simp add: search_loop_unfold)
  next
    case True
    let ?h = "(i + j) div 2"
    from True have h: "i \<le> ?h" "?h < j" by auto
    show ?thesis
    proof (cases "f ?h")
      case True
      with "1.IH"(2) [of ?h] h \<open>i < j\<close> "1.prems" show ?thesis
        by (simp add: search_loop_unfold)
    next
      case False
      with "1.IH"(1) [of ?h] h \<open>i < j\<close> "1.prems" show ?thesis
        by (simp add: search_loop_unfold)
    qed
  qed
qed

lemma search_loop_miss:
  "i \<le> j \<Longrightarrow> (0 < i \<longrightarrow> \<not> f (i - 1)) \<Longrightarrow> 0 < search_loop f i j \<Longrightarrow> \<not> f (search_loop f i j - 1)"
proof (induction f i j rule: search_loop.induct)
  case (1 f i j)
  show ?case
  proof (cases "i < j")
    case False
    with "1.prems" show ?thesis by (simp add: search_loop_unfold)
  next
    case True
    let ?h = "(i + j) div 2"
    from True have h: "i \<le> ?h" "?h < j" by auto
    show ?thesis
    proof (cases "f ?h")
      case True
      with "1.IH"(2) [of ?h] h \<open>i < j\<close> "1.prems" show ?thesis
        by (simp add: search_loop_unfold)
    next
      case False
      with "1.IH"(1) [of ?h] h \<open>i < j\<close> "1.prems" show ?thesis
        by (simp add: search_loop_unfold)
    qed
  qed
qed

lemma Search_le: "Search n f \<le> n"
  using search_loop_bounds [of 0 n f] by (simp add: Search_def)

lemma Search_hit: "Search n f < n \<Longrightarrow> f (Search n f)"
  using search_loop_hit [of 0 n n f] by (simp add: Search_def)

lemma Search_miss: "0 < Search n f \<Longrightarrow> \<not> f (Search n f - 1)"
  using search_loop_miss [of 0 n f] by (simp add: Search_def)

text \<open>For a monotone predicate the result is the least index where it holds.\<close>
lemma Search_mono_least:
  assumes mono: "\<And>i j. i \<le> j \<Longrightarrow> j < n \<Longrightarrow> f i \<Longrightarrow> f j"
  shows "\<forall>i < Search n f. \<not> f i"
proof (intro allI impI)
  fix i assume i: "i < Search n f"
  then have pos: "0 < Search n f" by simp
  have nf: "\<not> f (Search n f - 1)" using Search_miss [OF pos] .
  have "Search n f - 1 < n" using Search_le [of n f] pos by simp
  moreover have "i \<le> Search n f - 1" using i by simp
  ultimately show "\<not> f i" using mono [of i "Search n f - 1"] nf by blast
qed


section \<open>Sorted page-id union: \<open>mergepgids\<close> and \<open>pgids.merge\<close>\<close>

function merge_loop :: "pgid list \<Rightarrow> pgid list \<Rightarrow> pgid list \<Rightarrow> panic + pgid list" where
  "merge_loop merged lead follow =
     (if length lead > 0 then
        (case follow of
           [] \<Rightarrow> Inl IndexOutOfRange
         | f0 # _ \<Rightarrow>
             (let n = Search (length lead) (\<lambda>i. lead ! i > f0);
                  merged' = merged @ take n lead
              in if n \<ge> length lead then Inr (merged' @ follow)
                 else merge_loop merged' follow (drop n lead)))
      else Inr (merged @ follow))"
  by pat_completeness auto
termination
proof (relation "measures [\<lambda>(m, l, f). length l + length f,
                           \<lambda>(m, l, f). if l \<noteq> [] \<and> f \<noteq> [] \<and> hd f < hd l then 1 else 0]",
       goal_cases)
  case 1
  show ?case by simp
next
  case (2 merged lead follow f0 fs n merged')
  show ?case
  proof (cases "n = 0")
    case False
    then have "0 < n" by simp
    moreover from 2 have "lead \<noteq> []" by simp
    ultimately have "length (drop n lead) + length follow < length lead + length follow"
      by simp
    then show ?thesis by simp
  next
    case True
    from 2 have lt: "Search (length lead) (\<lambda>i. f0 < lead ! i) < length lead"
      by simp
    from Search_hit [OF lt] True 2 have "f0 < lead ! 0" by simp
    with 2 True show ?thesis by (cases lead) auto
  qed
qed

declare merge_loop.simps [simp del]

definition mergepgids :: "pgid list \<Rightarrow> pgid list \<Rightarrow> pgid list \<Rightarrow> panic + pgid list" where
  "mergepgids dst a b =
     (if length dst < length a + length b then Inl BadLen
      else if length a = 0 then Inr (copy dst b)
      else if length b = 0 then Inr (copy dst a)
      else (let (lead, follow) = (if b ! 0 < a ! 0 then (b, a) else (a, b))
            in case merge_loop [] lead follow of
                 Inl e \<Rightarrow> Inl e
               | Inr merged \<Rightarrow> Inr (copy dst merged)))"


lemma merge_loop_step:
  assumes "lead \<noteq> []"
  shows "merge_loop merged lead (f0 # fs) =
           (let n = Search (length lead) (\<lambda>i. lead ! i > f0)
            in if n \<ge> length lead then Inr (merged @ lead @ f0 # fs)
               else merge_loop (merged @ take n lead) (f0 # fs) (drop n lead))"
  using assms by (subst merge_loop.simps) (simp add: Let_def)

text \<open>On arbitrary (also unsorted) non-empty inputs the loop never indexes an empty
  \<open>follow\<close>: it returns a rearrangement of all the elements.\<close>
lemma merge_loop_total:
  "lead \<noteq> [] \<Longrightarrow> follow \<noteq> [] \<Longrightarrow>
     \<exists>r. merge_loop merged lead follow = Inr r \<and>
         mset r = mset merged + mset lead + mset follow"
proof (induction merged lead follow rule: merge_loop.induct)
  case (1 merged lead follow)
  from "1.prems" obtain f0 fs where follow: "follow = f0 # fs" by (cases follow) auto
  define n where "n = Search (length lead) (\<lambda>i. lead ! i > f0)"
  show ?case
  proof (cases "n \<ge> length lead")
    case True
    then show ?thesis
      using "1.prems" by (simp add: follow merge_loop_step n_def [symmetric])
  next
    case False
    have "\<exists>r. merge_loop (merged @ take n lead) follow (drop n lead) = Inr r \<and>
         mset r = mset (merged @ take n lead) + mset follow + mset (drop n lead)"
      using "1.IH" [OF _ follow n_def refl False] "1.prems" False by simp
    then obtain r where r: "merge_loop (merged @ take n lead) follow (drop n lead) = Inr r"
      and m: "mset r = mset (merged @ take n lead) + mset follow + mset (drop n lead)"
      by blast
    have "mset (take n lead) + mset (drop n lead) = mset lead"
      by (metis append_take_drop_id mset_append)
    with m have "mset r = mset merged + mset lead + mset follow"
      by (simp add: add.assoc add.left_commute add.commute)
    with r False show ?thesis
      using "1.prems" by (simp add: follow merge_loop_step n_def [symmetric])
  qed
qed

lemma Search_sorted_split:
  fixes lead :: "pgid list" and f0 :: pgid
  assumes "sorted lead"
  defines "n \<equiv> Search (length lead) (\<lambda>i. lead ! i > f0)"
  shows "\<forall>x \<in> set (take n lead). x \<le> f0" and "n < length lead \<Longrightarrow> f0 < lead ! n"
proof -
  have mono: "\<And>i j. i \<le> j \<Longrightarrow> j < length lead \<Longrightarrow> f0 < lead ! i \<Longrightarrow> f0 < lead ! j"
    using assms(1) by (meson less_le_trans sorted_nth_mono)
  have least: "\<forall>i < n. \<not> f0 < lead ! i"
    unfolding n_def by (rule Search_mono_least) (rule mono)
  have "n \<le> length lead" unfolding n_def by (rule Search_le)
  with least show "\<forall>x \<in> set (take n lead). x \<le> f0"
    by (auto simp: in_set_conv_nth not_less)
  show "n < length lead \<Longrightarrow> f0 < lead ! n"
    unfolding n_def by (rule Search_hit)
qed

text \<open>On ascending inputs with \<open>lead[0] \<le> follow[0]\<close> the loop appends the sorted
  merge of both to what is already in \<open>merged\<close>.\<close>
lemma merge_loop_sorted:
  "sorted lead \<Longrightarrow> sorted follow \<Longrightarrow> lead \<noteq> [] \<Longrightarrow> follow \<noteq> [] \<Longrightarrow> hd lead \<le> hd follow \<Longrightarrow>
     merge_loop merged lead follow = Inr (merged @ sort (lead @ follow))"
proof (induction merged lead follow rule: merge_loop.induct)
  case (1 merged lead follow)
  from "1.prems" obtain f0 fs where follow: "follow = f0 # fs" by (cases follow) auto
  define n where "n = Search (length lead) (\<lambda>i. lead ! i > f0)"
  have small: "\<forall>x \<in> set (take n lead). x \<le> f0"
    unfolding n_def using "1.prems"(1) by (rule Search_sorted_split(1))
  have f0_min: "\<forall>y \<in> set follow. f0 \<le> y"
    using "1.prems"(2) by (auto simp: follow)
  show ?case
  proof (cases "n \<ge> length lead")
    case True
    with small have "\<forall>x \<in> set lead. x \<le> f0" by simp
    with f0_min "1.prems"(1,2) have "sorted (lead @ follow)"
      by (auto simp: sorted_append intro: order_trans)
    then have "sort (lead @ follow) = lead @ follow"
      by (simp add: sort_key_id_if_sorted)
    with True show ?thesis
      using "1.prems" by (simp add: follow merge_loop_step n_def [symmetric])
  next
    case False
    then have nlt: "n < length lead" by simp
    have big: "f0 < lead ! n"
      unfolding n_def using "1.prems"(1) nlt [unfolded n_def] by (rule Search_sorted_split(2))
    have hd_drop: "hd (drop n lead) = lead ! n" using nlt by (simp add: hd_drop_conv_nth)
    have IH: "merge_loop (merged @ take n lead) follow (drop n lead) =
                Inr ((merged @ take n lead) @ sort (follow @ drop n lead))"
      using "1.IH" [OF _ follow n_def refl False] "1.prems" nlt big
      by (simp add: sorted_wrt_drop hd_drop follow)
    have drop_ge: "\<forall>y \<in> set (drop n lead). f0 \<le> y"
    proof
      fix y assume "y \<in> set (drop n lead)"
      then obtain k where "k < length lead - n" "y = lead ! (n + k)"
        by (auto simp: in_set_conv_nth)
      moreover from this have "lead ! n \<le> lead ! (n + k)"
        by (intro sorted_nth_mono [OF "1.prems"(1)]) auto
      ultimately show "f0 \<le> y" using big by simp
    qed
    have srt: "sorted (take n lead @ sort (follow @ drop n lead))"
      using small f0_min drop_ge "1.prems"(1)
      by (auto simp: sorted_append sorted_wrt_take intro: order_trans)
    have ms: "mset (take n lead @ sort (follow @ drop n lead)) = mset (lead @ follow)"
      by (metis (no_types, lifting) append_take_drop_id mset_append mset_sort union_assoc union_commute)
    have "sort (lead @ follow) = take n lead @ sort (follow @ drop n lead)"
      using ms srt by (rule properties_for_sort)
    with IH False show ?thesis
      using "1.prems" by (simp add: follow merge_loop_step n_def [symmetric])
  qed
qed


lemma sort_append_commute: "sort (b @ a) = sort (a @ (b :: pgid list))"
  by (rule properties_for_sort) (simp_all add: union_commute)

lemma mergepgids_sorted:
  assumes "sorted a" "sorted b" "length a + length b \<le> length dst"
  shows "mergepgids dst a b = Inr (sort (a @ b) @ drop (length a + length b) dst)"
proof (cases "a = [] \<or> b = []")
  case True
  then show ?thesis
    using assms by (auto simp: mergepgids_def copy_def sort_key_id_if_sorted)
next
  case False
  then have ne: "a \<noteq> []" "b \<noteq> []" by simp_all
  then have hd: "a ! 0 = hd a" "b ! 0 = hd b" by (simp_all add: hd_conv_nth)
  have len: "length (sort (a @ b)) = length a + length b" by simp
  show ?thesis
  proof (cases "b ! 0 < a ! 0")
    case True
    then have "hd b \<le> hd a" using hd by simp
    then have "merge_loop [] b a = Inr ([] @ sort (b @ a))"
      using assms ne by (intro merge_loop_sorted) simp_all
    then show ?thesis
      using True assms(3) ne by (simp add: mergepgids_def copy_def sort_append_commute)
  next
    case False
    then have "hd a \<le> hd b" using hd by simp
    then have "merge_loop [] a b = Inr ([] @ sort (a @ b))"
      using assms ne by (intro merge_loop_sorted) simp_all
    then show ?thesis
      using False assms(3) ne by (simp add: mergepgids_def copy_def)
  qed
qed

lemma mergepgids_short: "length dst < length a + length b \<Longrightarrow> mergepgids dst a b = Inl BadLen"
  by (simp add: mergepgids_def)

theorem mergepgids_sorted_union:
  assumes "sorted a" and "sorted b"
  shows "(length a + length b \<le> length dst \<longrightarrow>
           (\<exists>out. mergepgids dst a b = Inr out \<and>
                  length out = length dst \<and>
                  sorted (take (length a + length b) out) \<and>
                  mset (take (length a + length b) out) = mset a + mset b \<and>
                  drop (length a + length b) out = drop (length a + length b) dst \<and>
                  (a = [] \<longrightarrow> take (length a + length b) out = b) \<and>
                  (b = [] \<longrightarrow> take (length a + length b) out = a))) \<and>
         (length dst < length a + length b \<longrightarrow> mergepgids dst a b = Inl BadLen)"
proof (intro conjI impI)
  assume len: "length a + length b \<le> length dst"
  let ?out = "sort (a @ b) @ drop (length a + length b) dst"
  have tk: "take (length a + length b) ?out = sort (a @ b)" by simp
  have "mergepgids dst a b = Inr ?out"
    using assms len by (rule mergepgids_sorted)
  moreover have "length ?out = length dst" using len by simp
  moreover have "sorted (take (length a + length b) ?out)" unfolding tk by simp
  moreover have "mset (take (length a + length b) ?out) = mset a + mset b" unfolding tk by simp
  moreover have "drop (length a + length b) ?out = drop (length a + length b) dst" by simp
  moreover have "a = [] \<longrightarrow> take (length a + length b) ?out = b"
    unfolding tk using assms(2) by (simp add: sort_key_id_if_sorted)
  moreover have "b = [] \<longrightarrow> take (length a + length b) ?out = a"
    unfolding tk using assms(1) by (simp add: sort_key_id_if_sorted)
  ultimately show "\<exists>out. mergepgids dst a b = Inr out \<and>
                  length out = length dst \<and>
                  sorted (take (length a + length b) out) \<and>
                  mset (take (length a + length b) out) = mset a + mset b \<and>
                  drop (length a + length b) out = drop (length a + length b) dst \<and>
                  (a = [] \<longrightarrow> take (length a + length b) out = b) \<and>
                  (b = [] \<longrightarrow> take (length a + length b) out = a)"
    by blast
next
  assume "length dst < length a + length b"
  then show "mergepgids dst a b = Inl BadLen" by (rule mergepgids_short)
qed

theorem mergepgids_sorted_union_witness:
  "sorted [3, 4, 7 :: pgid] \<and> sorted [1, 5, 6, 8 :: pgid] \<and>
   (\<exists>out. mergepgids [0, 0, 0, 0, 0, 0, 0, 9] [3, 4, 7] [1, 5, 6, 8] = Inr out \<and>
          length out = 8 \<and> sorted (take 7 out) \<and>
          mset (take 7 out) = mset [3, 4, 7] + mset [1, 5, 6, 8] \<and>
          drop 7 out = [9]) \<and>
   mergepgids [0, 0, 0, 0, 0, 0] [3, 4, 7] [1, 5, 6, 8] = Inl BadLen"
proof -
  have a: "sorted [3, 4, 7 :: pgid]" and b: "sorted [1, 5, 6, 8 :: pgid]" by simp_all
  show ?thesis
    using a b
      mergepgids_sorted_union [OF a b, of "[0, 0, 0, 0, 0, 0, 0, 9]"]
      mergepgids_sorted_union [OF a b, of "[0, 0, 0, 0, 0, 0]"]
    by (simp add: eval_nat_numeral)
qed

section \<open>The freelist\<close>

text \<open>
  \<^verbatim>\<open>type freelist struct { ids []pgid; pending map[txid][]pgid; cache map[pgid]bool }\<close>.
  \<open>pending\<close> is a finite map. \<open>cache\<close> only ever stores \<^verbatim>\<open>true\<close> (\<^verbatim>\<open>f.cache[id] = true\<close>)
  and is otherwise cleared by \<^verbatim>\<open>delete\<close>, so it is the set of its keys and the lookup
  \<^verbatim>\<open>f.cache[id]\<close> is membership.
\<close>

record freelist =
  ids :: "pgid list"
  pending :: "txid \<rightharpoonup> pgid list"
  cache :: "pgid set"

definition newFreelist :: freelist where
  "newFreelist = \<lparr>ids = [], pending = Map.empty, cache = {}\<rparr>"

text \<open>Reading a Go map at a missing key gives the zero value, here the \<^verbatim>\<open>nil\<close> slice.\<close>

definition lookup :: "(txid \<rightharpoonup> pgid list) \<Rightarrow> txid \<Rightarrow> pgid list" where
  "lookup m t = (case m t of None \<Rightarrow> [] | Some l \<Rightarrow> l)"

text \<open>
  \<^verbatim>\<open>for _, list := range f.pending\<close> visits every entry once, in an order Go leaves
  open. The model visits the entries by ascending key; every loop of the sources over
  \<open>pending\<close> either sums, builds a set, or sorts what it collected, so the order does not
  show in any result.
\<close>

definition range_keys :: "(txid \<rightharpoonup> pgid list) \<Rightarrow> txid list" where
  "range_keys m = sorted_list_of_set (dom m)"

definition range_values :: "(txid \<rightharpoonup> pgid list) \<Rightarrow> pgid list list" where
  "range_values m = map (lookup m) (range_keys m)"

definition free_count :: "freelist \<Rightarrow> nat" where
  "free_count f = length (ids f)"

definition pending_count :: "freelist \<Rightarrow> nat" where
  "pending_count f = fold (\<lambda>list count. count + length list) (range_values (pending f)) 0"

definition count :: "freelist \<Rightarrow> nat" where
  "count f = free_count f + pending_count f"

text \<open>\<^verbatim>\<open>copyall\<close>: collect all pending ids, \<^verbatim>\<open>sort.Sort\<close> them, merge with \<open>ids\<close> into \<open>dst\<close>.\<close>

definition copyall :: "freelist \<Rightarrow> pgid list \<Rightarrow> panic + pgid list" where
  "copyall f dst =
     (let m = fold (\<lambda>list m. m @ list) (range_values (pending f)) [];
          m = sort m
      in mergepgids dst (ids f) m)"

subsection \<open>allocate\<close>

text \<open>
  The loop \<^verbatim>\<open>for i := pgid(0); i < pgid(n); i++ { delete(f.cache, initial+i) }\<close>.
\<close>

function uncache_loop :: "pgid \<Rightarrow> pgid \<Rightarrow> pgid \<Rightarrow> pgid set \<Rightarrow> pgid set" where
  "uncache_loop i n initial c =
     (if i < n then uncache_loop (i + 1) n initial (c - {initial + i}) else c)"
  by pat_completeness auto
termination
proof (relation "measure (\<lambda>(i, n, initial, c). unat n - unat i)", goal_cases)
  case 1
  show ?case by simp
next
  case (2 i n initial c)
  then have "unat (i + 1) = unat i + 1" by (simp add: unat_inc_less)
  with 2 show ?case by (simp add: word_less_nat_alt)
qed

declare uncache_loop.simps [simp del]

text \<open>
  The body of \<^verbatim>\<open>for i, id := range f.ids\<close> in \<^verbatim>\<open>allocate\<close>, on the ids not yet visited.
  When the run ending at index \<open>i\<close> has \<open>n\<close> ids, the run is cut out of \<open>f.ids\<close>: by
  re-slicing (\<^verbatim>\<open>f.ids[i+1:]\<close>) when \<open>i + 1 = n\<close>, by \<^verbatim>\<open>copy\<close> and truncation otherwise; the
  slice expressions panic when a bound is negative or behind the end.
\<close>

definition cut_run :: "pgid list \<Rightarrow> nat \<Rightarrow> goint \<Rightarrow> panic + pgid list" where
  "cut_run xs i n =
     (if int i + 1 = sint n then Inr (drop (i + 1) xs)
      else
        (let lo = int i - sint n + 1; hi = int (length xs) - sint n in
         if lo < 0 \<or> int (length xs) < lo then Inl SliceOutOfRange
         else
           (let xs' = take (nat lo) xs @ copy (drop (nat lo) xs) (drop (i + 1) xs) in
            if hi < 0 \<or> int (length xs') < hi then Inl SliceOutOfRange
            else Inr (take (nat hi) xs'))))"

fun allocate_loop ::
  "freelist \<Rightarrow> goint \<Rightarrow> nat \<Rightarrow> pgid \<Rightarrow> pgid \<Rightarrow> pgid list \<Rightarrow> panic + pgid \<times> freelist"
where
  "allocate_loop f n i initial previd [] = Inr (0, f)"
| "allocate_loop f n i initial previd (ident # rest) =
     (if ident \<le> 1 then Inl (InvalidAllocation ident)
      else
        (let initial = (if previd = 0 \<or> ident - previd \<noteq> 1 then ident else initial) in
         if (ident - initial) + 1 = n then
           (case cut_run (ids f) i n of
              Inl e \<Rightarrow> Inl e
            | Inr ids' \<Rightarrow>
                Inr (initial, f\<lparr>ids := ids', cache := uncache_loop 0 n initial (cache f)\<rparr>))
         else allocate_loop f n (i + 1) initial ident rest))"

definition allocate :: "freelist \<Rightarrow> goint \<Rightarrow> panic + pgid \<times> freelist" where
  "allocate f n =
     (if length (ids f) = 0 then Inr (0, f)
      else allocate_loop f n 0 0 0 (ids f))"

subsection \<open>free, release, rollback, freed\<close>

text \<open>
  The loop \<^verbatim>\<open>for id := p.id; id <= p.id+pgid(p.overflow); id++\<close> of \<^verbatim>\<open>free\<close>, with \<open>hi\<close> the
  bound. When \<open>hi\<close> is the largest pgid the condition never fails and \<open>id\<close> wraps around;
  the loop still ends, by the panic at an id that is already in the cache, since every
  round adds one: the complement of the cache is the measure.
\<close>

function free_loop :: "pgid \<Rightarrow> pgid \<Rightarrow> pgid list \<Rightarrow> pgid set \<Rightarrow> panic + pgid list \<times> pgid set" where
  "free_loop ident hi xs c =
     (if ident \<le> hi then
        (if ident \<in> c then Inl (AlreadyFreed ident)
         else free_loop (ident + 1) hi (xs @ [ident]) (insert ident c))
      else Inr (xs, c))"
  by pat_completeness auto
termination
proof (relation "measure (\<lambda>(ident, hi, xs, c). card (- c))", goal_cases)
  case 1
  show ?case by simp
next
  case (2 ident hi xs c)
  then have "- insert ident c \<subset> - c" by auto
  then show ?case by (simp add: psubset_card_mono)
qed

declare free_loop.simps [simp del]

definition free :: "freelist \<Rightarrow> txid \<Rightarrow> 'b page \<Rightarrow> panic + freelist" where
  "free f txid p =
     (if pid p \<le> 1 then Inl (CannotFree (pid p))
      else
        (let xs = lookup (pending f) txid in
         case free_loop (pid p) (pid p + ucast (overflow p)) xs (cache f) of
           Inl e \<Rightarrow> Inl e
         | Inr (xs', c') \<Rightarrow> Inr (f\<lparr>pending := (pending f)(txid \<mapsto> xs'), cache := c'\<rparr>)))"

text \<open>\<^verbatim>\<open>func (a pgids) merge(b pgids) pgids\<close>; \<^verbatim>\<open>make\<close> gives a zeroed slice.\<close>

definition merge :: "pgid list \<Rightarrow> pgid list \<Rightarrow> panic + pgid list" where
  "merge a b =
     (if length a = 0 then Inr b
      else if length b = 0 then Inr a
      else mergepgids (replicate (length a + length b) 0) a b)"

definition release :: "freelist \<Rightarrow> txid \<Rightarrow> panic + freelist" where
  "release f txid =
     (let tids = filter (\<lambda>tid. tid \<le> txid) (range_keys (pending f));
          m = fold (\<lambda>tid m. m @ lookup (pending f) tid) tids [];
          pending' = fold (\<lambda>tid p. p(tid := None)) tids (pending f);
          m = sort m
      in case merge (ids f) m of
           Inl e \<Rightarrow> Inl e
         | Inr ids' \<Rightarrow> Inr (f\<lparr>ids := ids', pending := pending'\<rparr>))"

definition rollback :: "freelist \<Rightarrow> txid \<Rightarrow> freelist" where
  "rollback f txid =
     (let xs = lookup (pending f) txid
      in f\<lparr>cache := fold (\<lambda>ident c. c - {ident}) xs (cache f),
           pending := (pending f)(txid := None)\<rparr>)"

definition freed :: "freelist \<Rightarrow> pgid \<Rightarrow> bool" where
  "freed f pgid = (pgid \<in> cache f)"

subsection \<open>reindex, read, write, reload\<close>

definition reindex :: "freelist \<Rightarrow> freelist" where
  "reindex f =
     (let c = fold (\<lambda>ident c. insert ident c) (ids f) {};
          c = fold (\<lambda>pendingIDs c. fold (\<lambda>pendingID c. insert pendingID c) pendingIDs c)
                (range_values (pending f)) c
      in f\<lparr>cache := c\<rparr>)"

text \<open>
  \<^verbatim>\<open>read\<close>: the count is the header's, or body slot 0 when the header says \<open>0xFFFF\<close>
  (converted to \<^verbatim>\<open>int\<close>); the ids are the slice \<^verbatim>\<open>[idx:count]\<close> of the body array, which
  panics unless \<open>idx \<le> count \<le> maxAllocSize\<close>; they are copied and sorted.
\<close>

definition read :: "freelist \<Rightarrow> pgid list page \<Rightarrow> panic + freelist" where
  "read f p =
     (let idx = (0 :: int); count = uint (pcount p) in
      case (if count = 0xFFFF
            then (case ptr p of [] \<Rightarrow> Inl IndexOutOfRange | c # _ \<Rightarrow> Inr (1, sint c))
            else Inr (idx, count)) of
        Inl e \<Rightarrow> Inl e
      | Inr (idx, count) \<Rightarrow>
          if count = 0 then Inr (reindex (f\<lparr>ids := []\<rparr>))
          else if count < idx \<or> int (length (ptr p)) < count then Inl SliceOutOfRange
          else
            (let ids' = drop (nat idx) (take (nat count) (ptr p))
             in Inr (reindex (f\<lparr>ids := sort (copy (replicate (length ids') 0) ids')\<rparr>))))"

text \<open>
  \<^verbatim>\<open>write\<close> (\<open>write\<close> is a keyword of Isabelle, hence \<open>write_page\<close>) returns the page it
  has filled and its \<^verbatim>\<open>error\<close> result; the conversions \<^verbatim>\<open>uint16(lenids)\<close> and
  \<^verbatim>\<open>pgid(lenids)\<close> truncate.
\<close>

definition write_page :: "freelist \<Rightarrow> pgid list page \<Rightarrow> panic + pgid list page \<times> error option" where
  "write_page f p =
     (let p = p\<lparr>flags := flags p OR freelistPageFlag\<rparr>;
          lenids = count f
      in if lenids = 0 then Inr (p\<lparr>pcount := of_nat lenids\<rparr>, None)
         else if lenids < 0xFFFF then
           (let p = p\<lparr>pcount := of_nat lenids\<rparr> in
            case copyall f (ptr p) of
              Inl e \<Rightarrow> Inl e
            | Inr body \<Rightarrow> Inr (p\<lparr>ptr := body\<rparr>, None))
         else
           (let p = p\<lparr>pcount := 0xFFFF\<rparr> in
            case ptr p of
              [] \<Rightarrow> Inl IndexOutOfRange
            | _ # rest \<Rightarrow>
                (case copyall f rest of
                   Inl e \<Rightarrow> Inl e
                 | Inr rest' \<Rightarrow> Inr (p\<lparr>ptr := of_nat lenids # rest'\<rparr>, None))))"

definition reload :: "freelist \<Rightarrow> pgid list page \<Rightarrow> panic + freelist" where
  "reload f p =
     (case read f p of
        Inl e \<Rightarrow> Inl e
      | Inr f \<Rightarrow>
          (let pcache = fold (\<lambda>pendingIDs c. fold (\<lambda>pendingID c. insert pendingID c) pendingIDs c)
                          (range_values (pending f)) {};
               a = fold (\<lambda>ident a. if ident \<notin> pcache then a @ [ident] else a) (ids f) []
           in Inr (reindex (f\<lparr>ids := a\<rparr>))))"

subsection \<open>allocate: first fit\<close>

text \<open>\<open>run_at xs j N\<close>: the \<open>N\<close> ids of \<open>xs\<close> from index \<open>j\<close> on are consecutive page ids.\<close>

definition run_at :: "pgid list \<Rightarrow> nat \<Rightarrow> nat \<Rightarrow> bool" where
  "run_at xs j N = (j + N \<le> length xs \<and> (\<forall>k < N. xs ! (j + k) = xs ! j + of_nat k))"

text \<open>The length of the longest run of consecutive ids that ends at index \<open>i\<close>.\<close>

fun runlen :: "pgid list \<Rightarrow> nat \<Rightarrow> nat" where
  "runlen xs 0 = 1"
| "runlen xs (Suc i) = (if xs ! Suc i - xs ! i = 1 then Suc (runlen xs i) else 1)"

lemma runlen_step: "xs ! Suc i - xs ! i = 1 \<Longrightarrow> runlen xs (Suc i) = Suc (runlen xs i)"
  by simp

lemma runlen_reset: "xs ! Suc i - xs ! i \<noteq> 1 \<Longrightarrow> runlen xs (Suc i) = 1"
  by simp

lemma runlen_pos: "0 < runlen xs i"
  by (induction i) auto

lemma runlen_le: "runlen xs i \<le> Suc i"
  by (induction i) auto

declare runlen.simps(2) [simp del]

lemma runlen_run: "k < runlen xs i \<Longrightarrow> xs ! (Suc i - runlen xs i + k) = xs ! (Suc i - runlen xs i) + of_nat k"
proof (induction i arbitrary: k)
  case 0
  then show ?case by simp
next
  case (Suc i)
  show ?case
  proof (cases "xs ! Suc i - xs ! i = 1")
    case False
    with Suc.prems show ?thesis by (simp add: runlen_reset)
  next
    case True
    then have rl: "runlen xs (Suc i) = Suc (runlen xs i)" by (rule runlen_step)
    have start: "Suc (Suc i) - runlen xs (Suc i) = Suc i - runlen xs i"
      unfolding rl using runlen_le [of xs i] by simp
    show ?thesis
    proof (cases "k < runlen xs i")
      case True
      with Suc.IH [of k] show ?thesis by (simp add: start)
    next
      case False
      with Suc.prems rl have k: "k = runlen xs i" by simp
      have pos: "0 < runlen xs i" by (rule runlen_pos)
      have prev: "xs ! (Suc i - runlen xs i + (k - 1)) = xs ! (Suc i - runlen xs i) + of_nat (k - 1)"
        using Suc.IH [of "k - 1"] pos k by simp
      have idx: "Suc i - runlen xs i + (k - 1) = i" "Suc i - runlen xs i + k = Suc i"
        using runlen_le [of xs i] pos k by simp_all
      from True have "xs ! Suc i = xs ! i + 1" by (simp add: algebra_simps)
      also have "xs ! i = xs ! (Suc i - runlen xs i) + of_nat (k - 1)"
        using prev idx by simp
      finally have "xs ! Suc i = xs ! (Suc i - runlen xs i) + of_nat k"
        using pos k by (cases k) (simp_all add: algebra_simps)
      then show ?thesis by (simp add: start idx)
    qed
  qed
qed

lemma runlen_unat:
  assumes "\<forall>k \<le> i. 1 < xs ! k"
  shows "unat (xs ! i) = unat (xs ! (Suc i - runlen xs i)) + (runlen xs i - 1)"
  using assms
proof (induction i)
  case 0
  then show ?case by simp
next
  case (Suc i)
  show ?case
  proof (cases "xs ! Suc i - xs ! i = 1")
    case False
    then show ?thesis by (simp add: runlen_reset)
  next
    case True
    then have rl: "runlen xs (Suc i) = Suc (runlen xs i)" by (rule runlen_step)
    have start: "Suc (Suc i) - runlen xs (Suc i) = Suc i - runlen xs i"
      unfolding rl using runlen_le [of xs i] by simp
    from True have eq: "xs ! Suc i = xs ! i + 1" by (simp add: algebra_simps)
    have "1 < xs ! Suc i" using Suc.prems by simp
    then have "xs ! Suc i \<noteq> 0" by auto
    with eq have "unat (xs ! Suc i) = Suc (unat (xs ! i))"
      by (metis add.commute unatSuc)
    moreover have "unat (xs ! i) = unat (xs ! (Suc i - runlen xs i)) + (runlen xs i - 1)"
      using Suc.IH Suc.prems by simp
    ultimately show ?thesis
      using runlen_pos [of xs i] by (simp add: start rl)
  qed
qed

lemma runlen_append: "i < length pre \<Longrightarrow> runlen (pre @ rest) i = runlen pre i"
proof (induction i)
  case 0
  then show ?case by simp
next
  case (Suc i)
  then have "(pre @ rest) ! Suc i = pre ! Suc i" "(pre @ rest) ! i = pre ! i"
    by (simp_all add: nth_append)
  with Suc show ?case by (simp add: runlen.simps(2))
qed

lemma run_at_runlen: "run_at xs j N \<Longrightarrow> 1 \<le> N \<Longrightarrow> N \<le> runlen xs (j + N - 1)"
proof (induction N)
  case 0
  then show ?case by simp
next
  case (Suc N)
  show ?case
  proof (cases "N = 0")
    case True
    then show ?thesis using runlen_pos [of xs j] by simp
  next
    case False
    from Suc.prems(1) have run: "run_at xs j N" by (simp add: run_at_def)
    with Suc.IH False have IH: "N \<le> runlen xs (j + N - 1)" by simp
    from False obtain M where M: "N = Suc M" by (cases N) auto
    from Suc.prems(1) have all: "\<forall>k < Suc N. xs ! (j + k) = xs ! j + of_nat k"
      by (simp add: run_at_def)
    have "xs ! (j + N) = xs ! j + of_nat N" using all by blast
    moreover have "xs ! (j + M) = xs ! j + of_nat M" using all M by (metis less_Suc_eq)
    ultimately have "xs ! Suc (j + M) - xs ! (j + M) = 1" by (simp add: M)
    then have "runlen xs (Suc (j + M)) = Suc (runlen xs (j + M))" by (rule runlen_step)
    with IH show ?thesis by (simp add: M)
  qed
qed

lemma runlen_run_at:
  assumes "i < length xs" "1 \<le> N" "N \<le> runlen xs i"
  shows "run_at xs (Suc i - N) N"
proof -
  define r where "r = Suc i - runlen xs i"
  define d where "d = runlen xs i - N"
  have le: "runlen xs i \<le> Suc i" by (rule runlen_le)
  have j: "Suc i - N = r + d" using assms le by (simp add: r_def d_def)
  have el: "xs ! (r + k) = xs ! r + of_nat k" if "k < runlen xs i" for k
    using runlen_run [OF that] by (simp add: r_def)
  have "xs ! (r + d + k) = xs ! (r + d) + of_nat k" if "k < N" for k
  proof -
    have "xs ! (r + (d + k)) = xs ! r + of_nat (d + k)"
      using that assms by (intro el) (simp add: d_def)
    moreover have "xs ! (r + d) = xs ! r + of_nat d"
      using assms by (intro el) (simp add: d_def)
    ultimately show ?thesis by (simp add: add.assoc)
  qed
  moreover have "r + d + N \<le> length xs" using assms le by (simp add: r_def d_def)
  ultimately show ?thesis by (simp add: run_at_def j)
qed

lemma runlen_hits: "N \<le> runlen xs i \<Longrightarrow> 1 \<le> N \<Longrightarrow> \<exists>i' \<le> i. runlen xs i' = N"
proof (induction i)
  case 0
  then show ?case by simp
next
  case (Suc i)
  show ?case
  proof (cases "runlen xs (Suc i) = N")
    case True
    then show ?thesis by blast
  next
    case False
    with Suc.prems have gt: "N < runlen xs (Suc i)" by simp
    have "xs ! Suc i - xs ! i = 1"
    proof (rule ccontr)
      assume "xs ! Suc i - xs ! i \<noteq> 1"
      then have "runlen xs (Suc i) = 1" by (rule runlen_reset)
      with gt Suc.prems show False by simp
    qed
    then have "runlen xs (Suc i) = Suc (runlen xs i)" by (rule runlen_step)
    with gt have "N \<le> runlen xs i" by simp
    with Suc.IH Suc.prems obtain i' where "i' \<le> i" "runlen xs i' = N" by blast
    then have "i' \<le> Suc i \<and> runlen xs i' = N" by simp
    then show ?thesis by blast
  qed
qed

text \<open>The earliest run of \<open>N\<close> ids ends at the first index whose run length is \<open>N\<close>.\<close>
lemma first_run_runlen:
  assumes "run_at xs j N" "\<forall>j' < j. \<not> run_at xs j' N" "1 \<le> N"
  shows "j + N - 1 < length xs \<and> runlen xs (j + N - 1) = N \<and> (\<forall>i' < j + N - 1. runlen xs i' \<noteq> N)"
proof -
  have "j + N \<le> length xs" using assms(1) by (simp add: run_at_def)
  then have len: "j + N - 1 < length xs" using assms(3) by simp
  have early: "runlen xs i' \<noteq> N" if "i' < j + N - 1" for i'
  proof
    assume eq: "runlen xs i' = N"
    have "i' < length xs" using that len by simp
    then have "run_at xs (Suc i' - N) N" using assms(3) eq by (intro runlen_run_at) simp_all
    moreover have "N \<le> Suc i'" using runlen_le [of xs i'] eq by simp
    then have "Suc i' - N < j" using that assms(3) by simp
    ultimately show False using assms(2) by blast
  qed
  have "N \<le> runlen xs (j + N - 1)" using assms(1,3) by (rule run_at_runlen)
  then obtain i' where i': "i' \<le> j + N - 1" "runlen xs i' = N"
    using runlen_hits assms(3) by blast
  with early have "i' = j + N - 1" by (metis le_neq_implies_less)
  with i' have "runlen xs (j + N - 1) = N" by simp
  with len early show ?thesis by simp
qed

lemma no_run_runlen:
  assumes "\<forall>j. \<not> run_at xs j N" "1 \<le> N" "i < length xs"
  shows "runlen xs i \<noteq> N"
  using runlen_run_at [OF assms(3,2), of] assms(1) by auto


lemma take_bit_uint_top:
  "\<not> bit (uint n) (LENGTH('a) - Suc 0) \<Longrightarrow> take_bit (LENGTH('a) - Suc 0) (uint n) = uint n"
  for n :: "'a::len word"
  by (metis signed_take_bit_eq_if_positive signed_ucast_eq sint_uint
    uint_sint unsigned_take_bit_eq unsigned_ucast_eq)

lemma sint_pos_unat: "1 \<le> sint n \<Longrightarrow> sint n = int (unat n)"
  for n :: "'a::len word"
proof -
  assume "1 \<le> sint n"
  then have "\<not> bit n (LENGTH('a) - Suc 0)" by (simp add: bit_last_iff)
  then have nb: "\<not> bit (uint n) (LENGTH('a) - Suc 0)" by (simp add: bit_uint_iff)
  then have "signed_take_bit (LENGTH('a) - Suc 0) (uint n) = take_bit (LENGTH('a) - Suc 0) (uint n)"
    by (rule signed_take_bit_eq_if_positive)
  also have "\<dots> = uint n" using nb by (rule take_bit_uint_top)
  finally show ?thesis by (simp add: sint_uint)
qed

lemma sint_pos_unat_ge: "1 \<le> sint n \<Longrightarrow> 1 \<le> unat n"
  for n :: "'a::len word"
proof -
  assume a: "1 \<le> sint n"
  then have "1 \<le> int (unat n)" by (simp only: sint_pos_unat [OF a])
  then show ?thesis by linarith
qed

lemma word_of_nat_less_unat: "k < unat n \<Longrightarrow> (of_nat k :: 'a::len word) < n"
  by (simp add: word_less_nat_alt le_unat_uoi [of k n])

lemma uncache_loop_eq:
  "uncache_loop i n initial c = c - {initial + w |w. i \<le> w \<and> w < n}"
proof (induction i n initial c rule: uncache_loop.induct)
  case (1 i n initial c)
  show ?case
  proof (cases "i < n")
    case False
    then have "c - {initial + w |w. i \<le> w \<and> w < n} = c" by auto
    with False show ?thesis by (subst uncache_loop.simps) simp
  next
    case True
    then have next_le: "\<And>w. (i + 1 \<le> w) = (i < w)"
      by (metis inc_le interval_class.inc_less_eq_imp_less)
    have split: "\<And>w. (i \<le> w \<and> w < n) \<longleftrightarrow> (w = i \<or> (i + 1 \<le> w \<and> w < n))"
      unfolding next_le using True by auto
    have "{initial + w |w. i \<le> w \<and> w < n} = insert (initial + i) {initial + w |w. i + 1 \<le> w \<and> w < n}"
      unfolding split by auto
    with "1.IH" [OF True] True show ?thesis
      by (subst uncache_loop.simps) auto
  qed
qed

lemma uncache_loop_image:
  "uncache_loop 0 n initial c = c - (\<lambda>k. initial + of_nat k) ` {..<unat n}"
proof -
  have "{initial + w |w. 0 \<le> w \<and> w < n} = (\<lambda>k. initial + of_nat k) ` {..<unat n}"
  proof (intro set_eqI iffI)
    fix x assume "x \<in> {initial + w |w. 0 \<le> w \<and> w < n}"
    then obtain w where "x = initial + w" "w < n" by auto
    then have "x = initial + of_nat (unat w)" "unat w < unat n"
      by (simp_all add: word_less_nat_alt)
    then show "x \<in> (\<lambda>k. initial + of_nat k) ` {..<unat n}" by blast
  next
    fix x assume "x \<in> (\<lambda>k. initial + of_nat k) ` {..<unat n}"
    then obtain k where k: "x = initial + of_nat k" "k < unat n" by auto
    then have "(of_nat k :: pgid) < n" by (simp add: word_of_nat_less_unat)
    with k show "x \<in> {initial + w |w. 0 \<le> w \<and> w < n}" by auto
  qed
  then show ?thesis by (simp add: uncache_loop_eq)
qed

lemma cut_run_eq:
  assumes "1 \<le> sint n" "unat n \<le> Suc i" "i < length xs"
  shows "cut_run xs i n = Inr (take (Suc i - unat n) xs @ drop (Suc i) xs)"
proof -
  define N where "N = unat n"
  have sn: "sint n = int N" unfolding N_def using assms(1) by (rule sint_pos_unat)
  have "1 \<le> int N" using assms(1) unfolding sn .
  then have N1: "1 \<le> N" by simp
  have N2: "N \<le> Suc i" using assms(2) by (simp add: N_def)
  note N = N1 N2
  show ?thesis
  proof (cases "Suc i = N")
    case True
    then show ?thesis by (simp add: cut_run_def sn N_def [symmetric])
  next
    case False
    then have ne: "int i + 1 \<noteq> int N" by linarith
    have lo: "int i - int N + 1 = int (Suc i - N)" using N by simp
    have hi: "int (length xs) - int N = int (length xs - N)" using N assms(3) by simp
    have B: "copy (drop (Suc i - N) xs) (drop (Suc i) xs) =
               drop (Suc i) xs @ drop (length xs - Suc i) (drop (Suc i - N) xs)"
      using N assms(3) by (simp add: copy_def)
    have split: "length xs - N = length (take (Suc i - N) xs @ drop (Suc i) xs)"
      using N assms(3) by simp
    have "take (length xs - N) (take (Suc i - N) xs @ copy (drop (Suc i - N) xs) (drop (Suc i) xs))
            = take (Suc i - N) xs @ drop (Suc i) xs"
      unfolding B split by (metis append_assoc append_eq_conv_conj)
    moreover have "\<not> int (length xs) < int (Suc i - N)" using N assms(3) by simp
    moreover have "\<not> int (length (take (Suc i - N) xs @ copy (drop (Suc i - N) xs) (drop (Suc i) xs)))
                      < int (length xs - N)"
      unfolding B using N assms(3) by simp
    ultimately show ?thesis
      unfolding cut_run_def sn N_def [symmetric] Let_def lo hi
      using ne by (simp only: if_False nat_int of_nat_less_0_iff simp_thms Suc_eq_plus1 [symmetric])
  qed
qed



lemma cut_run_negative: "sint n < 0 \<Longrightarrow> cut_run xs i n = Inl SliceOutOfRange"
proof -
  assume neg: "sint n < 0"
  let ?lo = "int i - sint n + 1"
  let ?xs' = "take (nat ?lo) xs @ copy (drop (nat ?lo) xs) (drop (i + 1) xs)"
  have ne: "int i + 1 \<noteq> sint n" using neg by simp
  have lo: "\<not> ?lo < 0" using neg by simp
  show ?thesis
  proof (cases "int (length xs) < ?lo")
    case True
    with ne show ?thesis by (simp add: cut_run_def Let_def)
  next
    case False
    then have "nat ?lo \<le> length xs" by simp
    then have "length ?xs' = length xs" by (simp add: copy_def)
    then have "int (length ?xs') < int (length xs) - sint n" using neg by simp
    with ne lo False show ?thesis by (simp add: cut_run_def Let_def)
  qed
qed

text \<open>
  One round of the loop of \<open>allocate\<close> at index \<open>i\<close>, all ids up to \<open>i\<close> being above 1: the
  test \<^verbatim>\<open>(id-initial)+1 == pgid(n)\<close> compares the length of the run that ends at \<open>i\<close> with \<open>n\<close>
  read as an unsigned number.
\<close>

lemma allocate_loop_round:
  assumes ids: "ids f = xs" and big: "\<forall>k \<le> i. 1 < xs ! k"
    and i: "i < length xs"
    and inv0: "i = 0 \<Longrightarrow> previd = 0"
    and invS: "0 < i \<Longrightarrow> previd = xs ! (i - 1) \<and> initial = xs ! (i - runlen xs (i - 1))"
  shows "allocate_loop f n i initial previd (drop i xs) =
     (if runlen xs i = unat n
      then (case cut_run xs i n of
              Inl e \<Rightarrow> Inl e
            | Inr ids' \<Rightarrow>
                Inr (xs ! (Suc i - runlen xs i),
                     f\<lparr>ids := ids', cache := uncache_loop 0 n (xs ! (Suc i - runlen xs i)) (cache f)\<rparr>))
      else allocate_loop f n (Suc i) (xs ! (Suc i - runlen xs i)) (xs ! i) (drop (Suc i) xs))"
proof -
  define L where "L = runlen xs i"
  define r where "r = Suc i - L"
  have L: "0 < L" "L \<le> Suc i" using runlen_pos [of xs i] runlen_le [of xs i] by (simp_all add: L_def)
  have r: "r \<le> i" "r + (L - 1) = i" using L by (simp_all add: r_def)
  have cons: "drop i xs = xs ! i # drop (Suc i) xs" using i by (simp add: Cons_nth_drop_Suc)
  have gt1: "1 < xs ! i" using big i by simp
  then have not_small: "\<not> xs ! i \<le> 1" by simp
  have init: "(if previd = 0 \<or> xs ! i - previd \<noteq> 1 then xs ! i else initial) = xs ! r"
  proof (cases i)
    case 0
    with inv0 show ?thesis by (simp add: r_def L_def)
  next
    case (Suc i')
    with invS have prev: "previd = xs ! i'" and ini: "initial = xs ! (i - runlen xs i')" by simp_all
    have "1 < xs ! i'" using big i Suc by simp
    then have nz: "previd \<noteq> 0" using prev by auto
    show ?thesis
    proof (cases "xs ! Suc i' - xs ! i' = 1")
      case True
      then have "runlen xs (Suc i') = Suc (runlen xs i')" by (rule runlen_step)
      then have "r = i - runlen xs i'" by (simp add: r_def L_def Suc)
      with True nz prev ini Suc show ?thesis by simp
    next
      case False
      then have "runlen xs (Suc i') = 1" by (rule runlen_reset)
      then have "r = i" by (simp add: r_def L_def Suc)
      with False prev Suc show ?thesis by simp
    qed
  qed
  have el: "xs ! i = xs ! r + of_nat (L - 1)"
    using runlen_run [of "L - 1" xs i] L r by (simp add: L_def r_def)
  have un: "unat (xs ! i) = unat (xs ! r) + (L - 1)"
    using runlen_unat [OF big] by (simp add: L_def r_def)
  have "1 < xs ! r" using big i r by simp
  then have "1 < unat (xs ! r)" by (simp add: word_less_nat_alt)
  with un have "L \<le> unat (xs ! i)" by simp
  then have unL: "unat (of_nat L :: pgid) = L" by (rule le_unat_uoi)
  have "(xs ! i - xs ! r) + 1 = of_nat L"
    using L by (cases L) (simp_all add: el)
  then have test: "((xs ! i - xs ! r) + 1 = n) = (L = unat n)"
    using unL by auto
  have unfold: "allocate_loop f n i initial previd (drop i xs) =
      (if (xs ! i - xs ! r) + 1 = n then
         (case cut_run xs i n of
            Inl e \<Rightarrow> Inl e
          | Inr ids' \<Rightarrow> Inr (xs ! r, f\<lparr>ids := ids', cache := uncache_loop 0 n (xs ! r) (cache f)\<rparr>))
       else allocate_loop f n (Suc i) (xs ! r) (xs ! i) (drop (Suc i) xs))"
    unfolding cons using not_small init by (simp add: Let_def ids)
  show ?thesis
    unfolding unfold test unfolding r_def L_def by simp
qed

lemma allocate_loop_step:
  assumes ids: "ids f = xs" and big: "\<forall>k \<le> i. 1 < xs ! k" and n: "1 \<le> sint n"
    and i: "i < length xs"
    and inv0: "i = 0 \<Longrightarrow> previd = 0"
    and invS: "0 < i \<Longrightarrow> previd = xs ! (i - 1) \<and> initial = xs ! (i - runlen xs (i - 1))"
  shows "allocate_loop f n i initial previd (drop i xs) =
     (if runlen xs i = unat n
      then Inr (xs ! (Suc i - unat n),
                f\<lparr>ids := take (Suc i - unat n) xs @ drop (Suc i) xs,
                  cache := cache f - (\<lambda>k. xs ! (Suc i - unat n) + of_nat k) ` {..<unat n}\<rparr>)
      else allocate_loop f n (Suc i) (xs ! (Suc i - runlen xs i)) (xs ! i) (drop (Suc i) xs))"
proof (cases "runlen xs i = unat n")
  case True
  have "unat n \<le> Suc i" using runlen_le [of xs i] True by simp
  with n i have cut: "cut_run xs i n = Inr (take (Suc i - unat n) xs @ drop (Suc i) xs)"
    by (intro cut_run_eq) simp_all
  show ?thesis
    using allocate_loop_round [OF ids big i inv0 invS, of n] True
    by (simp add: cut uncache_loop_image)
next
  case False
  then show ?thesis
    using allocate_loop_round [OF ids big i inv0 invS, of n] by simp
qed

lemma allocate_loop_skip:
  assumes ids: "ids f = xs"
    and m: "m \<le> length xs" and big: "\<forall>k < m. 1 < xs ! k"
    and none: "\<forall>i' < m. runlen xs i' \<noteq> unat n"
    and im: "i \<le> m"
    and inv0: "i = 0 \<Longrightarrow> previd = 0"
    and invS: "0 < i \<Longrightarrow> previd = xs ! (i - 1) \<and> initial = xs ! (i - runlen xs (i - 1))"
  shows "\<exists>initial' previd'.
           allocate_loop f n i initial previd (drop i xs) =
             allocate_loop f n m initial' previd' (drop m xs) \<and>
           (m = 0 \<longrightarrow> previd' = 0) \<and>
           (0 < m \<longrightarrow> previd' = xs ! (m - 1) \<and> initial' = xs ! (m - runlen xs (m - 1)))"
  using im inv0 invS
proof (induction "m - i" arbitrary: i initial previd)
  case 0
  then have "i = m" by simp
  with 0 show ?case by blast
next
  case (Suc d)
  then have lt: "i < m" by simp
  then have i: "i < length xs" using m by simp
  have bigi: "\<forall>k \<le> i. 1 < xs ! k" using big lt by simp
  have "runlen xs i \<noteq> unat n" using none lt by simp
  then have step: "allocate_loop f n i initial previd (drop i xs) =
      allocate_loop f n (Suc i) (xs ! (Suc i - runlen xs i)) (xs ! i) (drop (Suc i) xs)"
    using allocate_loop_round [OF ids bigi i Suc.prems(2,3)] by simp
  have "\<exists>initial' previd'.
           allocate_loop f n (Suc i) (xs ! (Suc i - runlen xs i)) (xs ! i) (drop (Suc i) xs) =
             allocate_loop f n m initial' previd' (drop m xs) \<and>
           (m = 0 \<longrightarrow> previd' = 0) \<and>
           (0 < m \<longrightarrow> previd' = xs ! (m - 1) \<and> initial' = xs ! (m - runlen xs (m - 1)))"
    using Suc.hyps(2) lt by (intro Suc.hyps(1)) simp_all
  with step show ?case by simp
qed

lemma allocate_none:
  assumes "\<forall>x \<in> set (ids f). 1 < x" "1 \<le> sint n" "\<forall>j. \<not> run_at (ids f) j (unat n)"
  shows "allocate f n = Inr (0, f)"
proof (cases "ids f = []")
  case True
  then show ?thesis by (simp add: allocate_def)
next
  case False
  define xs where "xs = ids f"
  have N: "1 \<le> unat n" using assms(2) by (rule sint_pos_unat_ge)
  have none: "\<forall>i' < length xs. runlen xs i' \<noteq> unat n"
    using no_run_runlen [OF _ N] assms(3) by (simp add: xs_def)
  have big: "\<forall>k < length xs. 1 < xs ! k" using assms(1) by (simp add: xs_def)
  obtain initial' previd' where
    "allocate_loop f n 0 0 0 (drop 0 xs) = allocate_loop f n (length xs) initial' previd' (drop (length xs) xs)"
    using allocate_loop_skip [OF xs_def [symmetric] order_refl big none, of 0 0 0] by auto
  with False show ?thesis by (simp add: allocate_def xs_def)
qed

lemma allocate_found:
  assumes big: "\<forall>x \<in> set (ids f). 1 < x" and n: "1 \<le> sint n"
    and run: "run_at (ids f) j (unat n)" and first: "\<forall>j' < j. \<not> run_at (ids f) j' (unat n)"
  shows "allocate f n =
           Inr (ids f ! j,
                f\<lparr>ids := take j (ids f) @ drop (j + unat n) (ids f),
                  cache := cache f - (\<lambda>k. ids f ! j + of_nat k) ` {..<unat n}\<rparr>)"
proof -
  define xs where "xs = ids f"
  define i0 where "i0 = j + unat n - 1"
  have N: "1 \<le> unat n" using n by (rule sint_pos_unat_ge)
  have fr: "i0 < length xs" "runlen xs i0 = unat n" "\<forall>i' < i0. runlen xs i' \<noteq> unat n"
    using first_run_runlen [OF run first N] by (simp_all add: xs_def i0_def)
  have j: "Suc i0 - unat n = j" "Suc i0 = j + unat n" using N by (simp_all add: i0_def)
  have ne: "xs \<noteq> []" using fr(1) by auto
  have bigm: "\<forall>k < i0. 1 < xs ! k" using big fr(1) by (simp add: xs_def)
  have bigi: "\<forall>k \<le> i0. 1 < xs ! k" using big fr(1) by (simp add: xs_def)
  obtain initial' previd' where skip:
    "allocate_loop f n 0 0 0 (drop 0 xs) = allocate_loop f n i0 initial' previd' (drop i0 xs)"
    and inv: "i0 = 0 \<longrightarrow> previd' = 0"
       "0 < i0 \<longrightarrow> previd' = xs ! (i0 - 1) \<and> initial' = xs ! (i0 - runlen xs (i0 - 1))"
    using allocate_loop_skip [OF xs_def [symmetric] _ bigm fr(3), of 0 0 0] fr(1) by auto
  have "allocate_loop f n i0 initial' previd' (drop i0 xs) =
          Inr (xs ! (Suc i0 - unat n),
               f\<lparr>ids := take (Suc i0 - unat n) xs @ drop (Suc i0) xs,
                 cache := cache f - (\<lambda>k. xs ! (Suc i0 - unat n) + of_nat k) ` {..<unat n}\<rparr>)"
    using allocate_loop_step [OF xs_def [symmetric] bigi n fr(1), of previd' initial'] inv fr(2)
    by simp
  with skip ne show ?thesis
    by (simp add: allocate_def xs_def [symmetric] j)
qed

lemma allocate_panic:
  assumes ids: "ids f = pre @ x # post" and x: "x \<le> 1"
    and big: "\<forall>y \<in> set pre. 1 < y" and n: "1 \<le> sint n"
    and none: "\<forall>j. \<not> run_at pre j (unat n)"
  shows "allocate f n = Inl (InvalidAllocation x)"
proof -
  define xs where "xs = ids f"
  define m where "m = length pre"
  have N: "1 \<le> unat n" using n by (rule sint_pos_unat_ge)
  have m: "m \<le> length xs" by (simp add: xs_def ids m_def)
  have bigm: "\<forall>k < m. 1 < xs ! k" using big by (simp add: xs_def ids m_def nth_append)
  have nonem: "\<forall>i' < m. runlen xs i' \<noteq> unat n"
    using no_run_runlen [OF none N] by (simp add: xs_def ids m_def runlen_append)
  obtain initial' previd' where skip:
    "allocate_loop f n 0 0 0 (drop 0 xs) = allocate_loop f n m initial' previd' (drop m xs)"
    using allocate_loop_skip [OF xs_def [symmetric] m bigm nonem, of 0 0 0] by auto
  have "drop m xs = x # post" by (simp add: xs_def ids m_def)
  with skip x show ?thesis
    by (simp add: allocate_def xs_def [symmetric]) (simp add: xs_def ids)
qed

lemma run_at_window_set:
  assumes "run_at xs j N"
  shows "(\<lambda>k. xs ! j + of_nat k) ` {..<N} = set (take N (drop j xs))"
proof -
  from assms have len: "j + N \<le> length xs" and el: "\<And>k. k < N \<Longrightarrow> xs ! (j + k) = xs ! j + of_nat k"
    by (simp_all add: run_at_def)
  have "take N (drop j xs) = map (\<lambda>k. xs ! j + of_nat k) [0..<N]"
    using len el by (intro nth_equalityI) simp_all
  then show ?thesis by (simp add: atLeast0LessThan)
qed

lemma cut_window_set:
  assumes "distinct xs" "j + N \<le> length xs"
  shows "set (take j xs @ drop (j + N) xs) = set xs - set (take N (drop j xs))"
proof -
  have xs: "xs = take j xs @ take N (drop j xs) @ drop (j + N) xs"
    by (metis add.commute append_take_drop_id drop_drop)
  then have "distinct (take j xs @ take N (drop j xs) @ drop (j + N) xs)"
    using assms(1) by simp
  then have disj: "set (take j xs) \<inter> set (take N (drop j xs)) = {}"
    "set (take N (drop j xs)) \<inter> set (drop (j + N) xs) = {}"
    by auto
  have "set xs = set (take j xs) \<union> set (take N (drop j xs)) \<union> set (drop (j + N) xs)"
    by (subst xs) (simp add: Un_assoc)
  with disj show ?thesis by auto
qed

text \<open>
  \<^bold>\<open>C2\<close> (\<^verbatim>\<open>freelist.allocate\<close>, first fit). For a freelist whose \<open>ids\<close> are strictly
  ascending and all greater than 1, and \<open>n \<ge> 1\<close>: when \<open>ids\<close> holds no run of \<open>n\<close>
  consecutive page ids, \<open>allocate\<close> returns 0 and leaves the freelist as it is; when \<open>j\<close> is
  the index where the earliest such run starts, it returns its first id \<open>s = ids ! j\<close>, the
  new \<open>ids\<close> are the old ones without the run (as a list and as a set, exactly the ids
  \<open>s, \<dots>, s + n - 1\<close> are gone), still strictly ascending, the cache loses exactly these
  ids, and \<open>pending\<close> is untouched. For any freelist, an id \<open>\<le> 1\<close> that the scan reaches (the
  ids before it are greater than 1 and hold no run of \<open>n\<close>) makes \<open>allocate\<close> panic.
\<close>

theorem allocate_first_fit:
  assumes "sorted_wrt (<) (ids f)" and "\<forall>x \<in> set (ids f). 1 < x" and "1 \<le> sint n"
  shows "((\<forall>j. \<not> run_at (ids f) j (unat n)) \<longrightarrow> allocate f n = Inr (0, f)) \<and>
         (\<forall>j. run_at (ids f) j (unat n) \<and> (\<forall>j' < j. \<not> run_at (ids f) j' (unat n)) \<longrightarrow>
            (\<exists>f'. allocate f n = Inr (ids f ! j, f') \<and>
                  ids f' = take j (ids f) @ drop (j + unat n) (ids f) \<and>
                  set (ids f') = set (ids f) - (\<lambda>k. ids f ! j + of_nat k) ` {..<unat n} \<and>
                  cache f' = cache f - (\<lambda>k. ids f ! j + of_nat k) ` {..<unat n} \<and>
                  pending f' = pending f \<and>
                  sorted_wrt (<) (ids f'))) \<and>
         (\<forall>g pre x post.
            ids g = pre @ x # post \<and> x \<le> 1 \<and> (\<forall>y \<in> set pre. 1 < y) \<and>
            (\<forall>j. \<not> run_at pre j (unat n)) \<longrightarrow>
            allocate g n = Inl (InvalidAllocation x))"
proof (intro conjI allI impI)
  assume "\<forall>j. \<not> run_at (ids f) j (unat n)"
  with assms(2,3) show "allocate f n = Inr (0, f)" by (rule allocate_none)
next
  fix j
  assume run: "run_at (ids f) j (unat n) \<and> (\<forall>j' < j. \<not> run_at (ids f) j' (unat n))"
  let ?W = "(\<lambda>k. ids f ! j + of_nat k) ` {..<unat n}"
  let ?f' = "f\<lparr>ids := take j (ids f) @ drop (j + unat n) (ids f), cache := cache f - ?W\<rparr>"
  have res: "allocate f n = Inr (ids f ! j, ?f')"
    using assms(2,3) run by (intro allocate_found) simp_all
  have dist: "distinct (ids f)" using assms(1) by (simp add: strict_sorted_iff)
  have len: "j + unat n \<le> length (ids f)" using run by (simp add: run_at_def)
  have W: "?W = set (take (unat n) (drop j (ids f)))"
    using run by (intro run_at_window_set) simp
  have "set (ids ?f') = set (ids f) - ?W"
    unfolding W using cut_window_set [OF dist len] by simp
  moreover have "sorted_wrt (<) (ids ?f')"
  proof -
    have "sorted_wrt (<) (take j (ids f) @ drop j (ids f))" using assms(1) by simp
    then have a: "\<forall>x \<in> set (take j (ids f)). \<forall>y \<in> set (drop j (ids f)). x < y"
      unfolding sorted_wrt_append by blast
    have "set (drop (j + unat n) (ids f)) \<subseteq> set (drop j (ids f))"
      by (metis add.commute drop_drop set_drop_subset)
    with a have "\<forall>x \<in> set (take j (ids f)). \<forall>y \<in> set (drop (j + unat n) (ids f)). x < y"
      by blast
    then show ?thesis
      using assms(1) by (simp add: sorted_wrt_append sorted_wrt_take sorted_wrt_drop)
  qed
  ultimately show "\<exists>f'. allocate f n = Inr (ids f ! j, f') \<and>
                  ids f' = take j (ids f) @ drop (j + unat n) (ids f) \<and>
                  set (ids f') = set (ids f) - ?W \<and>
                  cache f' = cache f - ?W \<and>
                  pending f' = pending f \<and>
                  sorted_wrt (<) (ids f')"
    using res by (intro exI [of _ ?f']) simp
next
  fix g :: freelist and pre x post
  assume a: "ids g = pre @ x # post \<and> x \<le> 1 \<and> (\<forall>y \<in> set pre. 1 < y) \<and>
            (\<forall>j. \<not> run_at pre j (unat n))"
  then show "allocate g n = Inl (InvalidAllocation x)"
    using assms(3) by (intro allocate_panic [of g pre x post]) simp_all
qed



text \<open>The scenario of the specification: \<open>ids = [3,4,5,6,7,9,12,13]\<close>, \<open>allocate(3)\<close>
  returns 3 and leaves \<open>[6,7,9,12,13]\<close>; and a scan that reaches page id 1 panics.\<close>

theorem allocate_first_fit_witness:
  "sorted_wrt (<) [3, 4, 5, 6, 7, 9, 12, 13 :: pgid] \<and> 1 \<le> sint (3 :: goint) \<and>
   (\<exists>f'. allocate \<lparr>ids = [3, 4, 5, 6, 7, 9, 12, 13], pending = Map.empty,
                    cache = {3, 4, 5, 6, 7, 9, 12, 13}\<rparr> 3 = Inr (3, f') \<and>
         ids f' = [6, 7, 9, 12, 13] \<and> cache f' = {6, 7, 9, 12, 13}) \<and>
   allocate \<lparr>ids = [5, 1, 2, 3], pending = Map.empty, cache = {}\<rparr> 3 = Inl (InvalidAllocation 1)"
proof -
  let ?f = "\<lparr>ids = [3, 4, 5, 6, 7, 9, 12, 13 :: pgid], pending = Map.empty,
             cache = {3, 4, 5, 6, 7, 9, 12, 13 :: pgid}\<rparr>"
  let ?g = "\<lparr>ids = [5, 1, 2, 3 :: pgid], pending = Map.empty, cache = {} :: pgid set\<rparr>"
  have h1: "sorted_wrt (<) (ids ?f)" by simp
  have h2: "\<forall>x \<in> set (ids ?f). 1 < x" by simp
  have h3: "1 \<le> sint (3 :: goint)" by simp
  have u3: "unat (3 :: goint) = 3" by simp
  have run: "run_at (ids ?f) 0 (unat (3 :: goint)) \<and>
             (\<forall>j' < 0. \<not> run_at (ids ?f) j' (unat (3 :: goint)))"
    unfolding u3 run_at_def by (simp add: numeral_3_eq_3 less_Suc_eq)
  have reach: "ids ?g = [5] @ 1 # [2, 3] \<and> (1 :: pgid) \<le> 1 \<and> (\<forall>y \<in> set [5 :: pgid]. 1 < y) \<and>
             (\<forall>j. \<not> run_at [5 :: pgid] j (unat (3 :: goint)))"
    unfolding u3 run_at_def by simp
  note inst = allocate_first_fit [OF h1 h2 h3]
  from inst have "\<forall>j. run_at (ids ?f) j (unat (3 :: goint)) \<and>
        (\<forall>j' < j. \<not> run_at (ids ?f) j' (unat (3 :: goint))) \<longrightarrow>
        (\<exists>f'. allocate ?f 3 = Inr (ids ?f ! j, f') \<and>
              ids f' = take j (ids ?f) @ drop (j + unat (3 :: goint)) (ids ?f) \<and>
              set (ids f') = set (ids ?f) - (\<lambda>k. ids ?f ! j + of_nat k) ` {..<unat (3 :: goint)} \<and>
              cache f' = cache ?f - (\<lambda>k. ids ?f ! j + of_nat k) ` {..<unat (3 :: goint)} \<and>
              pending f' = pending ?f \<and> sorted_wrt (<) (ids f'))"
    by (elim conjE)
  then have "\<exists>f'. allocate ?f 3 = Inr (ids ?f ! 0, f') \<and>
              ids f' = take 0 (ids ?f) @ drop (0 + unat (3 :: goint)) (ids ?f) \<and>
              set (ids f') = set (ids ?f) - (\<lambda>k. ids ?f ! 0 + of_nat k) ` {..<unat (3 :: goint)} \<and>
              cache f' = cache ?f - (\<lambda>k. ids ?f ! 0 + of_nat k) ` {..<unat (3 :: goint)} \<and>
              pending f' = pending ?f \<and> sorted_wrt (<) (ids f')"
    using run by (elim allE [of _ 0] impE)
  then obtain f' where f': "allocate ?f 3 = Inr (ids ?f ! 0, f')"
    "ids f' = take 0 (ids ?f) @ drop (0 + unat (3 :: goint)) (ids ?f)"
    "cache f' = cache ?f - (\<lambda>k. ids ?f ! 0 + of_nat k) ` {..<unat (3 :: goint)}"
    by (elim exE conjE)
  have three: "{..<3 :: nat} = {0, 1, 2}" by auto
  have a: "allocate ?f 3 = Inr (3, f')" using f'(1) by simp
  have b: "ids f' = [6, 7, 9, 12, 13]" using f'(2) unfolding u3 by simp
  have c: "cache f' = {6, 7, 9, 12, 13}" using f'(3) unfolding u3 three by simp
  from inst have "\<forall>g pre x post.
            ids g = pre @ x # post \<and> x \<le> 1 \<and> (\<forall>y \<in> set pre. 1 < y) \<and>
            (\<forall>j. \<not> run_at pre j (unat (3 :: goint))) \<longrightarrow>
            allocate g 3 = Inl (InvalidAllocation x)"
    by (elim conjE)
  then have d: "allocate ?g 3 = Inl (InvalidAllocation 1)"
    using reach by (elim allE [of _ ?g] allE [of _ "[5]"] allE [of _ 1] allE [of _ "[2, 3]"] impE)
  from a b c have "\<exists>f'. allocate ?f 3 = Inr (3, f') \<and> ids f' = [6, 7, 9, 12, 13] \<and>
                cache f' = {6, 7, 9, 12, 13}"
    by blast
  with d show ?thesis using h1 h3 by simp
qed

subsection \<open>free\<close>

lemma free_loop_past: "hi < ident \<Longrightarrow> free_loop ident hi xs c = Inr (xs, c)"
  using leD by (subst free_loop.simps) auto

lemma free_loop_cached: "ident \<le> hi \<Longrightarrow> ident \<in> c \<Longrightarrow> free_loop ident hi xs c = Inl (AlreadyFreed ident)"
  by (subst free_loop.simps) simp

lemma free_loop_next:
  "ident \<le> hi \<Longrightarrow> ident \<notin> c \<Longrightarrow>
     free_loop ident hi xs c = free_loop (ident + 1) hi (xs @ [ident]) (insert ident c)"
  by (subst free_loop.simps) simp

text \<open>When the bound is the largest pgid the loop can only end by its panic.\<close>
lemma free_loop_top: "\<exists>w. free_loop ident (- 1) xs c = Inl (AlreadyFreed w)"
proof (induction ident "- 1 :: pgid" xs c rule: free_loop.induct)
  case (1 ident xs c)
  show ?case
  proof (cases "ident \<in> c")
    case True
    then show ?thesis by (simp add: free_loop_cached)
  next
    case False
    with "1.hyps" [OF _ False] show ?thesis by (simp add: free_loop_next)
  qed
qed

lemma unat_inc_below_top:
  "ident \<le> hi \<Longrightarrow> unat hi < 2 ^ 64 - 1 \<Longrightarrow> unat (ident + 1) = Suc (unat ident)"
  for ident hi :: pgid
proof -
  assume "ident \<le> hi" "unat hi < 2 ^ 64 - 1"
  then have "unat ident + 1 < 2 ^ 64" by (simp add: word_le_nat_alt)
  then show ?thesis by (simp add: unat_word_ariths)
qed

lemma of_nat_Suc_neq_0: "Suc k < 2 ^ 64 \<Longrightarrow> (of_nat (Suc k) :: pgid) \<noteq> 0"
proof
  assume a: "Suc k < 2 ^ 64" and z: "(of_nat (Suc k) :: pgid) = 0"
  have "unat (of_nat (Suc k) :: pgid) = Suc k" using a by (simp add: unat_of_nat del: of_nat_Suc)
  with z show False by simp
qed

lemma free_loop_ok:
  "unat ident + d = Suc (unat hi) \<Longrightarrow> unat hi < 2 ^ 64 - 1 \<Longrightarrow>
   (\<forall>k < d. ident + of_nat k \<notin> c) \<Longrightarrow>
     free_loop ident hi xs c =
       Inr (xs @ map (\<lambda>k. ident + of_nat k) [0..<d], c \<union> (\<lambda>k. ident + of_nat k) ` {..<d})"
proof (induction d arbitrary: ident xs c)
  case 0
  then have "hi < ident" by (simp add: word_less_nat_alt)
  then show ?case by (simp add: free_loop_past)
next
  case (Suc d)
  from Suc.prems(1) have le: "ident \<le> hi" by (simp add: word_le_nat_alt)
  have inc: "unat (ident + 1) = Suc (unat ident)" using le Suc.prems(2) by (rule unat_inc_below_top)
  from Suc.prems(3) have notin: "ident \<notin> c" by force
  have fresh: "\<forall>k < d. ident + 1 + of_nat k \<notin> insert ident c"
  proof (intro allI impI)
    fix k assume k: "k < d"
    then have "ident + of_nat (Suc k) \<notin> c" using Suc.prems(3) by (metis Suc_less_eq)
    moreover have "ident + of_nat (Suc k) \<noteq> ident"
    proof
      assume "ident + of_nat (Suc k) = ident"
      then have "(of_nat (Suc k) :: pgid) = 0" by (simp del: of_nat_Suc)
      moreover have "Suc k < 2 ^ 64" using k Suc.prems(1,2) by simp
      ultimately show False using of_nat_Suc_neq_0 by blast
    qed
    ultimately show "ident + 1 + of_nat k \<notin> insert ident c"
      by (simp add: add.assoc add.commute add.left_commute)
  qed
  have "free_loop (ident + 1) hi (xs @ [ident]) (insert ident c) =
          Inr ((xs @ [ident]) @ map (\<lambda>k. ident + 1 + of_nat k) [0..<d],
               insert ident c \<union> (\<lambda>k. ident + 1 + of_nat k) ` {..<d})"
    using Suc.prems(1,2) inc fresh by (intro Suc.IH) simp_all
  moreover have "map (\<lambda>k. ident + of_nat k) [0..<Suc d] =
                   ident # map (\<lambda>k. ident + 1 + of_nat k) [0..<d]"
    by (simp add: map_upt_Suc add.assoc del: upt_Suc)
  moreover have "(\<lambda>k. ident + of_nat k) ` {..<Suc d} =
                   insert ident ((\<lambda>k. ident + 1 + of_nat k) ` {..<d})"
    by (simp add: lessThan_Suc_eq_insert_0 image_image add.assoc)
  ultimately show ?case
    using le notin by (simp add: free_loop_next del: upt_Suc)
qed

lemma free_loop_clash:
  "unat ident + d = Suc (unat hi) \<Longrightarrow> unat hi < 2 ^ 64 - 1 \<Longrightarrow>
   k < d \<Longrightarrow> ident + of_nat k \<in> c \<Longrightarrow>
     \<exists>w. free_loop ident hi xs c = Inl (AlreadyFreed w)"
proof (induction d arbitrary: ident xs c k)
  case 0
  then show ?case by simp
next
  case (Suc d)
  from Suc.prems(1) have le: "ident \<le> hi" by (simp add: word_le_nat_alt)
  have inc: "unat (ident + 1) = Suc (unat ident)" using le Suc.prems(2) by (rule unat_inc_below_top)
  show ?case
  proof (cases "ident \<in> c")
    case True
    with le show ?thesis by (simp add: free_loop_cached)
  next
    case False
    with Suc.prems(4) obtain k' where k': "k = Suc k'" by (cases k) auto
    have "ident + 1 + of_nat k' \<in> insert ident c"
      using Suc.prems(4) by (simp add: k' add.assoc add.commute add.left_commute)
    then have "\<exists>w. free_loop (ident + 1) hi (xs @ [ident]) (insert ident c) = Inl (AlreadyFreed w)"
      using Suc.prems(1,2,3) inc k' by (intro Suc.IH [of _ k']) simp_all
    with le False show ?thesis by (simp add: free_loop_next)
  qed
qed

text \<open>Whatever the bound: a loop that returns has appended fresh, distinct ids.\<close>
lemma free_loop_Inr:
  "free_loop ident hi xs c = Inr (xs', c') \<Longrightarrow>
     \<exists>S. xs' = xs @ S \<and> c' = c \<union> set S \<and> set S \<inter> c = {} \<and> distinct S"
proof (induction ident hi xs c rule: free_loop.induct)
  case (1 ident hi xs c)
  show ?case
  proof (cases "ident \<le> hi")
    case False
    with "1.prems" show ?thesis by (simp add: free_loop_past not_le)
  next
    case le: True
    show ?thesis
    proof (cases "ident \<in> c")
      case True
      with le "1.prems" show ?thesis by (simp add: free_loop_cached)
    next
      case False
      with le "1.prems" have "free_loop (ident + 1) hi (xs @ [ident]) (insert ident c) = Inr (xs', c')"
        by (simp add: free_loop_next)
      from "1.IH" [OF le False this] obtain S where
        S: "xs' = (xs @ [ident]) @ S" "c' = insert ident c \<union> set S"
           "set S \<inter> insert ident c = {}" "distinct S"
        by blast
      then have "xs' = xs @ (ident # S) \<and> c' = c \<union> set (ident # S) \<and>
                 set (ident # S) \<inter> c = {} \<and> distinct (ident # S)"
        using False by auto
      then show ?thesis by blast
    qed
  qed
qed

text \<open>The page ids \<open>p.id, p.id + 1, \<dots>, p.id + p.overflow\<close> of a page and its overflow.\<close>

definition page_ids :: "'b page \<Rightarrow> pgid list" where
  "page_ids p = map (\<lambda>k. pid p + of_nat k) [0..<Suc (unat (overflow p))]"

lemma unat_ucast_overflow: "unat (ucast (v :: 32 word) :: pgid) = unat v"
proof -
  have "unat v < 2 ^ 32" using unsigned_less [of v] by simp
  then have "unat v < 2 ^ 64" by simp
  then have "take_bit 64 (unat v) = unat v" by (simp add: take_bit_nat_eq_self)
  then show ?thesis by (simp add: unsigned_ucast_eq)
qed

lemma free_bound:
  assumes "unat (pid p) + unat (overflow p) < 2 ^ 64 - 1"
  shows "unat (pid p + ucast (overflow p)) = unat (pid p) + unat (overflow p)"
  using assms by (simp add: unat_word_ariths unat_ucast_overflow)

lemma page_ids_sorted:
  assumes "unat (pid p) + unat (overflow p) < 2 ^ 64 - 1"
  shows "sorted_wrt (<) (page_ids p)"
proof -
  have "pid p + of_nat i < pid p + of_nat j" if "i < j" "j < Suc (unat (overflow p))" for i j
  proof -
    have "unat (pid p + of_nat i) = unat (pid p) + i" "unat (pid p + of_nat j) = unat (pid p) + j"
      using that assms by (simp_all add: unat_word_ariths unat_of_nat)
    with that show ?thesis by (simp add: word_less_nat_alt)
  qed
  then show ?thesis
    by (simp add: page_ids_def sorted_wrt_iff_nth_less del: upt_Suc)
qed

lemma free_no_panic:
  assumes "unat (pid p) + unat (overflow p) < 2 ^ 64 - 1" "\<not> pid p \<le> 1"
    "\<forall>x \<in> set (page_ids p). x \<notin> cache f"
  shows "free f t p = Inr (f\<lparr>pending := (pending f)(t \<mapsto> lookup (pending f) t @ page_ids p),
                            cache := cache f \<union> set (page_ids p)\<rparr>)"
proof -
  let ?hi = "pid p + ucast (overflow p)"
  have hi: "unat ?hi = unat (pid p) + unat (overflow p)" using assms(1) by (rule free_bound)
  have "free_loop (pid p) ?hi (lookup (pending f) t) (cache f) =
          Inr (lookup (pending f) t @ map (\<lambda>k. pid p + of_nat k) [0..<Suc (unat (overflow p))],
               cache f \<union> (\<lambda>k. pid p + of_nat k) ` {..<Suc (unat (overflow p))})"
    using assms(1,3) hi by (intro free_loop_ok) (simp_all add: page_ids_def del: upt_Suc)
  moreover have "(\<lambda>k. pid p + of_nat k) ` {..<Suc (unat (overflow p))} = set (page_ids p)"
    by (simp add: page_ids_def atLeast0LessThan del: upt_Suc)
  ultimately show ?thesis
    using assms(2) by (simp add: free_def page_ids_def Let_def del: upt_Suc)
qed

lemma free_clash:
  assumes "unat (pid p) + unat (overflow p) < 2 ^ 64 - 1" "x \<in> set (page_ids p)" "x \<in> cache f"
  shows "\<exists>e. free f t p = Inl e"
proof (cases "pid p \<le> 1")
  case True
  then show ?thesis by (simp add: free_def)
next
  case False
  let ?hi = "pid p + ucast (overflow p)"
  have hi: "unat ?hi = unat (pid p) + unat (overflow p)" using assms(1) by (rule free_bound)
  from assms(2) obtain k where k: "k < Suc (unat (overflow p))" "x = pid p + of_nat k"
    by (auto simp: page_ids_def simp del: upt_Suc)
  have "\<exists>w. free_loop (pid p) ?hi (lookup (pending f) t) (cache f) = Inl (AlreadyFreed w)"
    using assms(1,3) hi k by (intro free_loop_clash [of _ _ _ k]) simp_all
  with False show ?thesis by (auto simp: free_def Let_def)
qed

text \<open>
  Below the wrap-around of the id arithmetic \<^verbatim>\<open>freelist.free\<close> does what its documentation
  says: for a page whose last id \<open>p.id + p.overflow\<close> lies below the largest 64-bit page id,
  \<open>free\<close> panics exactly when \<open>p.id \<le> 1\<close> or one of the ids \<open>p.id, \<dots>, p.id + p.overflow\<close> is
  in the cache; otherwise it appends these ids, which are ascending, to \<open>pending[t]\<close>, adds
  them to the cache and leaves \<open>ids\<close> as it is.
\<close>

lemma free_panics_iff:
  assumes "unat (pid p) + unat (overflow p) < 2 ^ 64 - 1"
  shows "((\<exists>e. free f t p = Inl e) \<longleftrightarrow> pid p \<le> 1 \<or> (\<exists>x \<in> set (page_ids p). x \<in> cache f)) \<and>
         ((\<forall>e. free f t p \<noteq> Inl e) \<longrightarrow>
            free f t p = Inr (f\<lparr>pending := (pending f)(t \<mapsto> lookup (pending f) t @ page_ids p),
                               cache := cache f \<union> set (page_ids p)\<rparr>)) \<and>
         sorted_wrt (<) (page_ids p)"
proof (intro conjI iffI impI)
  assume panics: "\<exists>e. free f t p = Inl e"
  show "pid p \<le> 1 \<or> (\<exists>x \<in> set (page_ids p). x \<in> cache f)"
  proof (rule ccontr)
    assume "\<not> (pid p \<le> 1 \<or> (\<exists>x \<in> set (page_ids p). x \<in> cache f))"
    then have "\<not> pid p \<le> 1" "\<forall>x \<in> set (page_ids p). x \<notin> cache f" by simp_all
    from free_no_panic [OF assms this] panics show False by simp
  qed
next
  assume "pid p \<le> 1 \<or> (\<exists>x \<in> set (page_ids p). x \<in> cache f)"
  then show "\<exists>e. free f t p = Inl e"
    using free_clash [OF assms, of _ f t] by (auto simp: free_def)
next
  assume np: "\<forall>e. free f t p \<noteq> Inl e"
  then have "\<not> pid p \<le> 1" by (auto simp: free_def)
  moreover have "\<forall>x \<in> set (page_ids p). x \<notin> cache f"
    using np free_clash [OF assms, of _ f t] by blast
  ultimately show "free f t p = Inr (f\<lparr>pending := (pending f)(t \<mapsto> lookup (pending f) t @ page_ids p),
                               cache := cache f \<union> set (page_ids p)\<rparr>)"
    using assms by (intro free_no_panic) simp_all
next
  show "sorted_wrt (<) (page_ids p)" using assms by (rule page_ids_sorted)
qed



lemma lookup_simps [simp]:
  "lookup (m(t \<mapsto> v)) t = v" "m t = None \<Longrightarrow> lookup m t = []" "m t = Some v \<Longrightarrow> lookup m t = v"
  by (simp_all add: lookup_def)

lemma upt_0_3: "[0..<3] = [0, 1, 2]"
  by (simp add: eval_nat_numeral)

lemma page_ids_20_2:
  "page_ids \<lparr>pid = 20, flags = fl, pcount = n, overflow = 2, ptr = b\<rparr> = [20, 21, 22]"
  by (simp add: page_ids_def upt_0_3)

text \<open>The scenario of the specification: \<open>free(tx=10, page{id=20, overflow=2})\<close> on the
  empty freelist, then the double free of page 20.\<close>

lemma free_panics_iff_example:
  "unat (20 :: pgid) + unat (2 :: 32 word) < 2 ^ 64 - 1 \<and>
   free newFreelist 10 \<lparr>pid = 20, flags = 0, pcount = 0, overflow = 2, ptr = ()\<rparr> =
     Inr \<lparr>ids = [], pending = [10 \<mapsto> [20, 21, 22]], cache = {20, 21, 22}\<rparr> \<and>
   (\<exists>e. free \<lparr>ids = [], pending = [10 \<mapsto> [20, 21, 22]], cache = {20, 21, 22}\<rparr> 10
           \<lparr>pid = 20, flags = 0, pcount = 0, overflow = 0, ptr = ()\<rparr> = Inl e)"
proof -
  let ?p = "\<lparr>pid = 20 :: pgid, flags = 0, pcount = 0, overflow = 2, ptr = ()\<rparr>"
  let ?q = "\<lparr>pid = 20 :: pgid, flags = 0, pcount = 0, overflow = 0, ptr = ()\<rparr>"
  let ?f = "\<lparr>ids = [], pending = [10 \<mapsto> [20, 21, 22 :: pgid]], cache = {20, 21, 22 :: pgid}\<rparr>"
  have hp: "unat (pid ?p) + unat (overflow ?p) < 2 ^ 64 - 1" by simp
  have hq: "unat (pid ?q) + unat (overflow ?q) < 2 ^ 64 - 1" by simp
  have ids_p: "page_ids ?p = [20, 21, 22]" by (rule page_ids_20_2)
  have ids_q: "page_ids ?q = [20]" by (simp add: page_ids_def)
  have "\<not> (pid ?p \<le> 1 \<or> (\<exists>x \<in> set (page_ids ?p). x \<in> cache newFreelist))"
    by (simp add: newFreelist_def not_le)
  with free_panics_iff [OF hp, of newFreelist 10]
  have "free newFreelist 10 ?p =
          Inr (newFreelist\<lparr>pending := (pending newFreelist)(10 \<mapsto> lookup (pending newFreelist) 10 @ page_ids ?p),
                           cache := cache newFreelist \<union> set (page_ids ?p)\<rparr>)"
    by blast
  then have a: "free newFreelist 10 ?p = Inr ?f"
    unfolding ids_p by (simp add: newFreelist_def)
  have "pid ?q \<le> 1 \<or> (\<exists>x \<in> set (page_ids ?q). x \<in> cache ?f)"
    unfolding ids_q by simp
  with free_panics_iff [OF hq, of ?f 10] have b: "\<exists>e. free ?f 10 ?q = Inl e" by blast
  from a b show ?thesis by simp
qed


subsection \<open>rollback after free\<close>

lemma fold_delete: "fold (\<lambda>ident c. c - {ident}) xs c = c - set xs"
  by (induction xs arbitrary: c) auto

text \<open>
  \<^bold>\<open>C8\<close>, as amended: when transaction \<open>t\<close> has no entry in \<open>pending\<close> and \<open>free(t, p)\<close> does
  not panic, \<open>rollback(t)\<close> after it gives back the freelist as it was before the \<open>free\<close>:
  the same \<open>ids\<close>, \<open>pending\<close> and \<open>cache\<close>.
\<close>

theorem free_rollback_restores:
  assumes "pending f t = None" and "free f t p = Inr f'"
  shows "rollback f' t = f"
proof -
  from assms(2) have big: "\<not> pid p \<le> 1" by (auto simp: free_def)
  with assms(2) obtain xs' c' where
    loop: "free_loop (pid p) (pid p + ucast (overflow p)) (lookup (pending f) t) (cache f) = Inr (xs', c')"
    and f': "f' = f\<lparr>pending := (pending f)(t \<mapsto> xs'), cache := c'\<rparr>"
    by (auto simp: free_def Let_def split: sum.splits)
  from free_loop_Inr [OF loop] obtain S where
    S: "xs' = lookup (pending f) t @ S" "c' = cache f \<union> set S" "set S \<inter> cache f = {}"
    by blast
  have old: "lookup (pending f) t = []" using assms(1) by (simp add: lookup_def)
  have "(cache f \<union> set S) - set S = cache f" using S(3) by auto
  moreover have "(pending f)(t := None) = pending f" using assms(1) by auto
  ultimately show ?thesis
    by (simp add: rollback_def f' S old fold_delete)
qed

theorem free_rollback_restores_witness:
  "pending newFreelist 10 = None \<and>
   free newFreelist 10 \<lparr>pid = 20, flags = 0, pcount = 0, overflow = 2, ptr = ()\<rparr> =
     Inr \<lparr>ids = [], pending = [10 \<mapsto> [20, 21, 22]], cache = {20, 21, 22}\<rparr> \<and>
   rollback \<lparr>ids = [], pending = [10 \<mapsto> [20, 21, 22]], cache = {20, 21, 22}\<rparr> 10 = newFreelist"
proof -
  let ?p = "\<lparr>pid = 20 :: pgid, flags = 0, pcount = 0, overflow = 2, ptr = ()\<rparr>"
  let ?f = "\<lparr>ids = [], pending = [10 \<mapsto> [20, 21, 22 :: pgid]], cache = {20, 21, 22 :: pgid}\<rparr>"
  have h1: "pending newFreelist 10 = None" by (simp add: newFreelist_def)
  have hp: "unat (pid ?p) + unat (overflow ?p) < 2 ^ 64 - 1" "\<not> pid ?p \<le> 1"
    "\<forall>x \<in> set (page_ids ?p). x \<notin> cache newFreelist"
    by (simp_all add: newFreelist_def not_le)
  have ids_p: "page_ids ?p = [20, 21, 22]" by (rule page_ids_20_2)
  have h2: "free newFreelist 10 ?p = Inr ?f"
    using free_no_panic [OF hp, of 10] unfolding ids_p by (simp add: newFreelist_def)
  from free_rollback_restores [OF h1 h2] h1 h2 show ?thesis by simp
qed

text \<open>
  The claim as stated, for every freelist state, fails when \<open>t\<close> already has pending pages:
  \<open>rollback(t)\<close> drops them too. Here \<open>pending[7] = [5]\<close>, page 9 is freed by transaction 7
  and the rollback leaves an empty freelist.
\<close>

theorem free_rollback_counterexample:
  "free \<lparr>ids = [], pending = [7 \<mapsto> [5]], cache = {5}\<rparr> 7
        \<lparr>pid = 9, flags = 0, pcount = 0, overflow = 0, ptr = ()\<rparr> =
     Inr \<lparr>ids = [], pending = [7 \<mapsto> [5, 9]], cache = {5, 9}\<rparr> \<and>
   rollback \<lparr>ids = [], pending = [7 \<mapsto> [5, 9]], cache = {5, 9}\<rparr> 7 =
     \<lparr>ids = [], pending = Map.empty, cache = {}\<rparr> \<and>
   \<lparr>ids = [], pending = Map.empty, cache = {}\<rparr> \<noteq>
     \<lparr>ids = [], pending = [7 \<mapsto> [5 :: pgid]], cache = {5 :: pgid}\<rparr>"
proof -
  let ?p = "\<lparr>pid = 9 :: pgid, flags = 0, pcount = 0, overflow = 0, ptr = ()\<rparr>"
  let ?f = "\<lparr>ids = [], pending = [7 \<mapsto> [5 :: pgid]], cache = {5 :: pgid}\<rparr>"
  have hp: "unat (pid ?p) + unat (overflow ?p) < 2 ^ 64 - 1" "\<not> pid ?p \<le> 1"
    "\<forall>x \<in> set (page_ids ?p). x \<notin> cache ?f"
    by (simp_all add: page_ids_def not_le)
  have a: "free ?f 7 ?p = Inr \<lparr>ids = [], pending = [7 \<mapsto> [5, 9]], cache = {5, 9}\<rparr>"
    using free_no_panic [OF hp, of 7] by (simp add: page_ids_def insert_commute)
  have b: "rollback \<lparr>ids = [], pending = [7 \<mapsto> [5, 9 :: pgid]], cache = {5, 9 :: pgid}\<rparr> 7 =
             \<lparr>ids = [], pending = Map.empty, cache = {}\<rparr>"
    by (simp add: rollback_def)
  from a b show ?thesis by simp
qed

section \<open>The cache invariant\<close>

text \<open>
  The invariants of the freelist: \<open>cache_ok\<close> is invariant 1 of the specification
  (\<^verbatim>\<open>cache == {ids} \<union> \<Union> pending.values()\<close>), \<open>no_overlap\<close> is its invariants 2 and 4
  (no id twice in \<open>ids\<close>, none both in \<open>ids\<close> and in a pending list, none in two pending
  lists).
\<close>

definition cache_ok :: "freelist \<Rightarrow> bool" where
  "cache_ok f \<longleftrightarrow> cache f = set (ids f) \<union> \<Union> (set ` ran (pending f))"

definition no_overlap :: "freelist \<Rightarrow> bool" where
  "no_overlap f \<longleftrightarrow>
     distinct (ids f) \<and>
     (\<forall>t l. pending f t = Some l \<longrightarrow> set l \<inter> set (ids f) = {}) \<and>
     (\<forall>t t' l l'. t \<noteq> t' \<and> pending f t = Some l \<and> pending f t' = Some l' \<longrightarrow> set l \<inter> set l' = {})"

lemma ran_sets: "\<Union> (set ` ran m) = (\<Union>t \<in> dom m. set (lookup m t))"
  by (auto simp: ran_def lookup_def dom_def split: option.splits)

lemma set_range_keys: "set (range_keys m) = dom m"
  by (simp add: range_keys_def)

lemma distinct_range_keys: "distinct (range_keys m)"
  by (simp add: range_keys_def)

lemma fold_insert: "fold (\<lambda>ident c. insert ident c) xs c = c \<union> set xs"
  by (induction xs arbitrary: c) auto

lemma fold_union: "fold (\<lambda>l c. c \<union> set l) ls c = c \<union> \<Union> (set ` set ls)"
  by (induction ls arbitrary: c) auto

lemma fold_fold_insert:
  "fold (\<lambda>pendingIDs c. fold (\<lambda>pendingID c. insert pendingID c) pendingIDs c) ls c =
     c \<union> \<Union> (set ` set ls)"
  by (induction ls arbitrary: c) (auto simp: fold_insert)

lemma set_range_values: "\<Union> (set ` set (range_values m)) = \<Union> (set ` ran m)"
  by (simp add: range_values_def set_range_keys ran_sets)

lemma cache_reindex: "cache (reindex f) = set (ids f) \<union> \<Union> (set ` ran (pending f))"
  by (simp add: reindex_def Let_def fold_insert fold_union set_range_values)

lemma reindex_fields [simp]: "ids (reindex f) = ids f" "pending (reindex f) = pending f"
  by (simp_all add: reindex_def Let_def)

lemma cache_ok_reindex: "cache_ok (reindex f)"
  by (simp add: cache_ok_def cache_reindex)

lemma read_cache_ok: "read f p = Inr f' \<Longrightarrow> cache_ok f'"
  by (auto simp: read_def Let_def cache_ok_reindex split: sum.splits if_splits list.splits prod.splits)

lemma reload_cache_ok: "reload f p = Inr f' \<Longrightarrow> cache_ok f'"
  by (auto simp: reload_def Let_def cache_ok_reindex split: sum.splits)


text \<open>What a returning \<open>allocate\<close> has done, for any list of ids.\<close>
lemma allocate_cases:
  assumes res: "allocate f n = Inr (s, f')"
  shows "(s = 0 \<and> f' = f) \<or>
         (\<exists>j. run_at (ids f) j (unat n) \<and> s = ids f ! j \<and>
              f' = f\<lparr>ids := take j (ids f) @ drop (j + unat n) (ids f),
                     cache := cache f - (\<lambda>k. ids f ! j + of_nat k) ` {..<unat n}\<rparr>)"
proof (cases "ids f = []")
  case True
  with res show ?thesis by (simp add: allocate_def)
next
  case False
  define xs where "xs = ids f"
  define P where "P i \<longleftrightarrow> i < length xs \<and> (xs ! i \<le> 1 \<or> runlen xs i = unat n)" for i
  have start: "allocate f n = allocate_loop f n 0 0 0 (drop 0 xs)"
    using False by (simp add: allocate_def xs_def)
  show ?thesis
  proof (cases "\<exists>i. P i")
    case False
    then have big: "\<forall>k < length xs. 1 < xs ! k" and none: "\<forall>i' < length xs. runlen xs i' \<noteq> unat n"
      by (auto simp: P_def not_le)
    obtain initial' previd' where
      "allocate_loop f n 0 0 0 (drop 0 xs) = allocate_loop f n (length xs) initial' previd' (drop (length xs) xs)"
      using allocate_loop_skip [OF xs_def [symmetric] order_refl big none, of 0 0 0] by auto
    with start res show ?thesis by simp
  next
    case True
    define m where "m = (LEAST i. P i)"
    have Pm: "P m" unfolding m_def using True by (metis LeastI)
    have before: "\<not> P k" if "k < m" for k using that not_less_Least unfolding m_def by blast
    have m: "m < length xs" using Pm by (simp add: P_def)
    have big: "\<forall>k < m. 1 < xs ! k" using before m by (auto simp: P_def not_le)
    have none: "\<forall>i' < m. runlen xs i' \<noteq> unat n" using before m by (auto simp: P_def)
    obtain initial' previd' where skip:
      "allocate_loop f n 0 0 0 (drop 0 xs) = allocate_loop f n m initial' previd' (drop m xs)"
      and inv: "m = 0 \<longrightarrow> previd' = 0"
         "0 < m \<longrightarrow> previd' = xs ! (m - 1) \<and> initial' = xs ! (m - runlen xs (m - 1))"
      using allocate_loop_skip [OF xs_def [symmetric] _ big none, of 0 0 0] m by auto
    have cons: "drop m xs = xs ! m # drop (Suc m) xs" using m by (simp add: Cons_nth_drop_Suc)
    show ?thesis
    proof (cases "xs ! m \<le> 1")
      case True
      then have "allocate_loop f n m initial' previd' (drop m xs) = Inl (InvalidAllocation (xs ! m))"
        unfolding cons by simp
      with start skip res show ?thesis by simp
    next
      case False
      with Pm have rl: "runlen xs m = unat n" by (simp add: P_def)
      from False have top: "1 < xs ! m" by (simp only: not_le)
      have bigm: "\<forall>k \<le> m. 1 < xs ! k"
      proof (intro allI impI)
        fix k assume "k \<le> m"
        then show "1 < xs ! k" using big top by (cases "k = m") simp_all
      qed
      have n: "1 \<le> sint n"
      proof (rule ccontr)
        assume "\<not> 1 \<le> sint n"
        moreover have "n \<noteq> 0" using rl runlen_pos [of xs m] by auto
        then have "sint n \<noteq> 0" by (simp add: signed_eq_0_iff)
        ultimately have "sint n < 0" by simp
        then have "cut_run xs m n = Inl SliceOutOfRange" by (rule cut_run_negative)
        then have "allocate_loop f n m initial' previd' (drop m xs) = Inl SliceOutOfRange"
          using allocate_loop_round [OF xs_def [symmetric] bigm m, of previd' initial' n] inv rl
          by simp
        with start skip res show False by simp
      qed
      then have N: "1 \<le> unat n" by (rule sint_pos_unat_ge)
      have "allocate_loop f n m initial' previd' (drop m xs) =
          Inr (xs ! (Suc m - unat n),
               f\<lparr>ids := take (Suc m - unat n) xs @ drop (Suc m) xs,
                 cache := cache f - (\<lambda>k. xs ! (Suc m - unat n) + of_nat k) ` {..<unat n}\<rparr>)"
        using allocate_loop_step [OF xs_def [symmetric] bigm n m, of previd' initial'] inv rl
        by simp
      with start skip res have s: "s = xs ! (Suc m - unat n)"
        and f': "f' = f\<lparr>ids := take (Suc m - unat n) xs @ drop (Suc m) xs,
                 cache := cache f - (\<lambda>k. xs ! (Suc m - unat n) + of_nat k) ` {..<unat n}\<rparr>"
        by simp_all
      have run: "run_at xs (Suc m - unat n) (unat n)"
        using m N rl by (intro runlen_run_at) simp_all
      have "unat n \<le> Suc m" using runlen_le [of xs m] rl by simp
      then have "Suc m = (Suc m - unat n) + unat n" by simp
      with run s f' show ?thesis unfolding xs_def by metis
    qed
  qed
qed

lemma fold_append_lookup: "fold (\<lambda>tid m. m @ g tid) tids acc = acc @ concat (map g tids)"
  by (induction tids arbitrary: acc) auto

lemma fold_delete_keys: "fold (\<lambda>tid p. p(tid := None)) tids p = (\<lambda>t. if t \<in> set tids then None else p t)"
  by (induction tids arbitrary: p) auto

lemma merge_total: "\<exists>r. merge a b = Inr r \<and> mset r = mset a + mset b"
proof (cases "a = [] \<or> b = []")
  case True
  then show ?thesis by (auto simp: merge_def)
next
  case False
  then have ne: "a \<noteq> []" "b \<noteq> []" by simp_all
  define lead where "lead = (if b ! 0 < a ! 0 then b else a)"
  define follow where "follow = (if b ! 0 < a ! 0 then a else b)"
  have "lead \<noteq> []" "follow \<noteq> []" using ne by (simp_all add: lead_def follow_def)
  then obtain r where r: "merge_loop [] lead follow = Inr r" "mset r = mset [] + mset lead + mset follow"
    using merge_loop_total by blast
  then have ms: "mset r = mset a + mset b" by (simp add: lead_def follow_def)
  then have "length r = length a + length b" by (metis size_mset size_union)
  then have "copy (replicate (length a + length b) 0) r = r" by (simp add: copy_def)
  with r(1) ne have "merge a b = Inr r"
    by (cases "b ! 0 < a ! 0") (simp_all add: merge_def mergepgids_def lead_def follow_def)
  with ms show ?thesis by blast
qed

lemma release_result:
  "\<exists>ids'. release f txid = Inr (f\<lparr>ids := ids', pending := (\<lambda>t. if t \<le> txid then None else pending f t)\<rparr>) \<and>
          set ids' = set (ids f) \<union> (\<Union>t \<in> {t \<in> dom (pending f). t \<le> txid}. set (lookup (pending f) t))"
proof -
  define tids where "tids = filter (\<lambda>tid. tid \<le> txid) (range_keys (pending f))"
  define m where "m = sort (concat (map (lookup (pending f)) tids))"
  have tids: "set tids = {t \<in> dom (pending f). t \<le> txid}"
    by (auto simp: tids_def set_range_keys)
  have del: "(\<lambda>t. if t \<in> set tids then None else pending f t) =
             (\<lambda>t. if t \<le> txid then None else pending f t)"
    by (auto simp: tids fun_eq_iff)
  obtain r where r: "merge (ids f) m = Inr r" "mset r = mset (ids f) + mset m"
    using merge_total by blast
  from r(2) have "set r = set (ids f) \<union> set m" by (metis set_mset_mset set_mset_union)
  moreover have "set m = (\<Union>t \<in> set tids. set (lookup (pending f) t))" by (simp add: m_def)
  ultimately have "set r = set (ids f) \<union> (\<Union>t \<in> {t \<in> dom (pending f). t \<le> txid}. set (lookup (pending f) t))"
    by (simp add: tids)
  moreover have "release f txid = Inr (f\<lparr>ids := r, pending := (\<lambda>t. if t \<le> txid then None else pending f t)\<rparr>)"
    using r(1)
    by (simp add: release_def Let_def tids_def [symmetric] fold_append_lookup fold_delete_keys
        m_def [symmetric] del)
  ultimately show ?thesis by blast
qed


lemma in_pending_ids: "x \<in> \<Union> (set ` ran m) \<longleftrightarrow> (\<exists>t l. m t = Some l \<and> x \<in> set l)"
  by (auto simp: ran_def)

lemma ran_split: "m t = Some l \<Longrightarrow> ran m = insert l (ran (m(t := None)))"
proof -
  assume a: "m t = Some l"
  then have "m = (m(t := None))(t \<mapsto> l)" by auto
  then have "ran m = ran ((m(t := None))(t \<mapsto> l))" by simp
  also have "\<dots> = insert l (ran (m(t := None)))" by (rule ran_map_upd) simp
  finally show ?thesis .
qed

lemma pending_ids_split: "\<Union> (set ` ran m) = set (lookup m t) \<union> \<Union> (set ` ran (m(t := None)))"
proof (cases "m t")
  case None
  then have "m(t := None) = m" by auto
  moreover have "lookup m t = []" using None by (simp add: lookup_def)
  ultimately show ?thesis by (simp only: list.set Un_empty_left)
next
  case (Some l)
  have l: "lookup m t = l" using Some by (simp add: lookup_def)
  have "ran m = insert l (ran (m(t := None)))" using Some by (rule ran_split)
  then have "\<Union> (set ` ran m) = \<Union> (set ` insert l (ran (m(t := None))))" by (rule arg_cong)
  also have "\<dots> = set l \<union> \<Union> (set ` ran (m(t := None)))" by (simp only: image_insert Union_insert)
  finally show ?thesis unfolding l .
qed

lemma pending_ids_update:
  "\<Union> (set ` ran (m(t \<mapsto> lookup m t @ S))) = \<Union> (set ` ran m) \<union> set S"
proof -
  have eq: "(m(t := None))(t \<mapsto> lookup m t @ S) = m(t \<mapsto> lookup m t @ S)" by (rule fun_upd_upd)
  have "ran ((m(t := None))(t \<mapsto> lookup m t @ S)) = insert (lookup m t @ S) (ran (m(t := None)))"
    by (rule ran_map_upd) (rule fun_upd_same)
  then have "ran (m(t \<mapsto> lookup m t @ S)) = insert (lookup m t @ S) (ran (m(t := None)))"
    unfolding eq .
  then have "\<Union> (set ` ran (m(t \<mapsto> lookup m t @ S))) =
             \<Union> (set ` insert (lookup m t @ S) (ran (m(t := None))))"
    by (rule arg_cong)
  also have "\<dots> = set (lookup m t) \<union> set S \<union> \<Union> (set ` ran (m(t := None)))"
    by (simp only: image_insert Union_insert set_append)
  also have "\<dots> = (set (lookup m t) \<union> \<Union> (set ` ran (m(t := None)))) \<union> set S" by blast
  also have "\<dots> = \<Union> (set ` ran m) \<union> set S" by (simp only: pending_ids_split [of m t])
  finally show ?thesis .
qed

lemma in_released:
  "x \<in> (\<Union>t \<in> {t \<in> dom m. t \<le> txid}. set (lookup m t)) \<longleftrightarrow>
     (\<exists>t l. m t = Some l \<and> t \<le> txid \<and> x \<in> set l)"
proof
  assume "x \<in> (\<Union>t \<in> {t \<in> dom m. t \<le> txid}. set (lookup m t))"
  then obtain t where t: "t \<in> dom m" "t \<le> txid" "x \<in> set (lookup m t)" by blast
  then obtain l where "m t = Some l" by blast
  with t show "\<exists>t l. m t = Some l \<and> t \<le> txid \<and> x \<in> set l" by auto
next
  assume "\<exists>t l. m t = Some l \<and> t \<le> txid \<and> x \<in> set l"
  then obtain t l where t: "m t = Some l" "t \<le> txid" "x \<in> set l" by blast
  then have "t \<in> {t \<in> dom m. t \<le> txid}" "x \<in> set (lookup m t)" by auto
  then show "x \<in> (\<Union>t \<in> {t \<in> dom m. t \<le> txid}. set (lookup m t))" by blast
qed

lemma in_kept:
  "x \<in> \<Union> (set ` ran (\<lambda>t. if t \<le> txid then None else m t)) \<longleftrightarrow>
     (\<exists>t l. \<not> t \<le> txid \<and> m t = Some l \<and> x \<in> set l)"
proof
  assume "x \<in> \<Union> (set ` ran (\<lambda>t. if t \<le> txid then None else m t))"
  then obtain t l where tl: "(if t \<le> txid then None else m t) = Some l" "x \<in> set l"
    unfolding in_pending_ids by blast
  then have "\<not> t \<le> txid \<and> m t = Some l" by (cases "t \<le> txid") simp_all
  with tl(2) show "\<exists>t l. \<not> t \<le> txid \<and> m t = Some l \<and> x \<in> set l" by blast
next
  assume "\<exists>t l. \<not> t \<le> txid \<and> m t = Some l \<and> x \<in> set l"
  then obtain t l where "\<not> t \<le> txid" "m t = Some l" "x \<in> set l" by blast
  then have "(if t \<le> txid then None else m t) = Some l \<and> x \<in> set l" by simp
  then show "x \<in> \<Union> (set ` ran (\<lambda>t. if t \<le> txid then None else m t))"
    unfolding in_pending_ids by blast
qed

lemma pending_ids_release:
  "(\<Union>t \<in> {t \<in> dom m. t \<le> txid}. set (lookup m t)) \<union>
   \<Union> (set ` ran (\<lambda>t. if t \<le> txid then None else m t)) = \<Union> (set ` ran m)"
proof (rule set_eqI)
  fix x
  have "(\<exists>t l. m t = Some l \<and> t \<le> txid \<and> x \<in> set l) \<or>
        (\<exists>t l. \<not> t \<le> txid \<and> m t = Some l \<and> x \<in> set l) \<longleftrightarrow>
        (\<exists>t l. m t = Some l \<and> x \<in> set l)"
    by blast
  then show "x \<in> (\<Union>t \<in> {t \<in> dom m. t \<le> txid}. set (lookup m t)) \<union>
           \<Union> (set ` ran (\<lambda>t. if t \<le> txid then None else m t)) \<longleftrightarrow>
        x \<in> \<Union> (set ` ran m)"
    by (simp only: Un_iff in_released in_kept in_pending_ids)
qed


lemma allocate_cache_ok:
  assumes "cache_ok f" "no_overlap f" "allocate f n = Inr (s, f')"
  shows "cache_ok f'"
proof -
  from allocate_cases [OF assms(3)] show ?thesis
  proof (elim disjE exE conjE)
    assume "f' = f"
    with assms(1) show ?thesis by simp
  next
    fix j
    assume run: "run_at (ids f) j (unat n)"
      and f': "f' = f\<lparr>ids := take j (ids f) @ drop (j + unat n) (ids f),
                     cache := cache f - (\<lambda>k. ids f ! j + of_nat k) ` {..<unat n}\<rparr>"
    let ?W = "set (take (unat n) (drop j (ids f)))"
    have W: "(\<lambda>k. ids f ! j + of_nat k) ` {..<unat n} = ?W"
      using run by (rule run_at_window_set)
    have len: "j + unat n \<le> length (ids f)" using run by (simp add: run_at_def)
    have dist: "distinct (ids f)" using assms(2) by (simp add: no_overlap_def)
    have cut: "set (take j (ids f) @ drop (j + unat n) (ids f)) = set (ids f) - ?W"
      using dist len by (rule cut_window_set)
    have "?W \<subseteq> set (ids f)" by (meson set_drop_subset set_take_subset subset_trans)
    moreover have "\<Union> (set ` ran (pending f)) \<inter> set (ids f) = {}"
      using assms(2) by (auto simp: no_overlap_def ran_def)
    ultimately have "\<Union> (set ` ran (pending f)) \<inter> ?W = {}" by blast
    then have "(set (ids f) \<union> \<Union> (set ` ran (pending f))) - ?W =
               (set (ids f) - ?W) \<union> \<Union> (set ` ran (pending f))"
      by blast
    moreover have "set (take j (ids f)) \<union> set (drop (j + unat n) (ids f)) = set (ids f) - ?W"
      using cut by simp
    ultimately show ?thesis
      using assms(1) unfolding f' W by (simp add: cache_ok_def)
  qed
qed

lemma free_cache_ok:
  assumes "cache_ok f" "free f t p = Inr f'"
  shows "cache_ok f'"
proof -
  from assms(2) obtain xs' c' where
    loop: "free_loop (pid p) (pid p + ucast (overflow p)) (lookup (pending f) t) (cache f) = Inr (xs', c')"
    and f': "f' = f\<lparr>pending := (pending f)(t \<mapsto> xs'), cache := c'\<rparr>"
    by (auto simp: free_def Let_def split: sum.splits if_splits)
  from free_loop_Inr [OF loop] obtain S where
    S: "xs' = lookup (pending f) t @ S" "c' = cache f \<union> set S"
    by blast
  have "\<Union> (set ` ran ((pending f)(t \<mapsto> lookup (pending f) t @ S))) =
          \<Union> (set ` ran (pending f)) \<union> set S"
    by (rule pending_ids_update)
  with assms(1) show ?thesis
    unfolding cache_ok_def f' S by (simp add: Un_assoc)
qed

lemma release_cache_ok:
  assumes "cache_ok f" "release f txid = Inr f'"
  shows "cache_ok f'"
proof -
  from release_result [of f txid] assms(2) obtain ids' where
    f': "f' = f\<lparr>ids := ids', pending := (\<lambda>t. if t \<le> txid then None else pending f t)\<rparr>"
    and newids: "set ids' = set (ids f) \<union> (\<Union>t \<in> {t \<in> dom (pending f). t \<le> txid}. set (lookup (pending f) t))"
    by auto
  have "(\<Union>t \<in> {t \<in> dom (pending f). t \<le> txid}. set (lookup (pending f) t)) \<union>
        \<Union> (set ` ran (\<lambda>t. if t \<le> txid then None else pending f t)) =
        \<Union> (set ` ran (pending f))"
    by (rule pending_ids_release)
  then have "set ids' \<union> \<Union> (set ` ran (\<lambda>t. if t \<le> txid then None else pending f t)) =
             set (ids f) \<union> \<Union> (set ` ran (pending f))"
    unfolding newids by (simp only: Un_assoc)
  with assms(1) show ?thesis
    by (simp add: cache_ok_def f')
qed

lemma rollback_cache_ok:
  assumes "cache_ok f" "no_overlap f"
  shows "cache_ok (rollback f t)"
proof -
  let ?old = "lookup (pending f) t"
  from assms(2) have
    no1: "\<And>t l. pending f t = Some l \<Longrightarrow> set l \<inter> set (ids f) = {}" and
    no2: "\<And>t t' l l'. t \<noteq> t' \<Longrightarrow> pending f t = Some l \<Longrightarrow> pending f t' = Some l' \<Longrightarrow>
            set l \<inter> set l' = {}"
    unfolding no_overlap_def by blast+
  have ids: "set ?old \<inter> set (ids f) = {}"
    using no1 [of t] by (cases "pending f t") (simp_all add: lookup_def)
  have others: "set ?old \<inter> \<Union> (set ` ran ((pending f)(t := None))) = {}"
  proof (cases "pending f t")
    case None
    then show ?thesis by (simp add: lookup_def)
  next
    case (Some l)
    have "x \<notin> \<Union> (set ` ran ((pending f)(t := None)))" if x: "x \<in> set l" for x
    proof
      assume "x \<in> \<Union> (set ` ran ((pending f)(t := None)))"
      then obtain t' l' where "((pending f)(t := None)) t' = Some l'" "x \<in> set l'"
        unfolding in_pending_ids by blast
      then have "t \<noteq> t'" "pending f t' = Some l'" "x \<in> set l'"
        by (auto split: if_splits)
      with no2 [OF _ Some, of t' l'] x show False by blast
    qed
    with Some show ?thesis by (auto simp: lookup_def)
  qed
  have all: "\<Union> (set ` ran (pending f)) = set ?old \<union> \<Union> (set ` ran ((pending f)(t := None)))"
    by (rule pending_ids_split)
  have "(set (ids f) \<union> \<Union> (set ` ran (pending f))) - set ?old =
        set (ids f) \<union> \<Union> (set ` ran ((pending f)(t := None)))"
    unfolding all using ids others by blast
  with assms(1) show ?thesis
    by (simp add: cache_ok_def rollback_def Let_def fold_delete)
qed

text \<open>
  \<^bold>\<open>C7\<close> (the cache invariant), as amended. From a freelist in which the cache is exactly
  the ids of \<open>ids\<close> and of all pending lists and in which no id occurs twice (invariants 2
  and 4 of the specification: \<open>ids\<close> has no duplicates, no id is both in \<open>ids\<close> and in a
  pending list, none in two pending lists), after each of \<open>allocate\<close> and \<open>rollback\<close> the
  cache is again exactly the ids of \<open>ids\<close> and of all pending lists, for every \<open>n\<close> and every
  transaction, whenever the call does not panic. \<open>free\<close> and \<open>release\<close> need only the cache
  equation before. \<open>read\<close> and \<open>reload\<close> rebuild the cache (\<^verbatim>\<open>reindex\<close>) and establish the
  equation from any state.
\<close>

theorem cache_invariant:
  "(cache_ok f \<and> no_overlap f \<and> allocate f n = Inr (s, fa) \<longrightarrow> cache_ok fa) \<and>
   (cache_ok f \<and> free f t p = Inr fb \<longrightarrow> cache_ok fb) \<and>
   (cache_ok f \<and> release f t = Inr fc \<longrightarrow> cache_ok fc) \<and>
   (cache_ok f \<and> no_overlap f \<longrightarrow> cache_ok (rollback f t)) \<and>
   (read g q = Inr fd \<longrightarrow> cache_ok fd) \<and>
   (reload g q = Inr fe \<longrightarrow> cache_ok fe)"
proof (intro conjI impI)
  assume "cache_ok f \<and> no_overlap f \<and> allocate f n = Inr (s, fa)"
  then show "cache_ok fa" using allocate_cache_ok by blast
next
  assume "cache_ok f \<and> free f t p = Inr fb"
  then show "cache_ok fb" using free_cache_ok by blast
next
  assume "cache_ok f \<and> release f t = Inr fc"
  then show "cache_ok fc" using release_cache_ok by blast
next
  assume "cache_ok f \<and> no_overlap f"
  then show "cache_ok (rollback f t)" using rollback_cache_ok by blast
next
  assume "read g q = Inr fd"
  then show "cache_ok fd" by (rule read_cache_ok)
next
  assume "reload g q = Inr fe"
  then show "cache_ok fe" by (rule reload_cache_ok)
qed

theorem cache_invariant_witness:
  "cache_ok \<lparr>ids = [3, 4, 5, 9], pending = [7 \<mapsto> [12]], cache = {3, 4, 5, 9, 12}\<rparr> \<and>
   no_overlap \<lparr>ids = [3, 4, 5, 9], pending = [7 \<mapsto> [12]], cache = {3, 4, 5, 9, 12}\<rparr> \<and>
   (\<exists>fa. allocate \<lparr>ids = [3, 4, 5, 9], pending = [7 \<mapsto> [12]], cache = {3, 4, 5, 9, 12}\<rparr> 3 = Inr (3, fa) \<and>
         cache_ok fa) \<and>
   (\<exists>fb. free \<lparr>ids = [3, 4, 5, 9], pending = [7 \<mapsto> [12]], cache = {3, 4, 5, 9, 12}\<rparr> 7
              \<lparr>pid = 20, flags = 0, pcount = 0, overflow = 2, ptr = ()\<rparr> = Inr fb \<and> cache_ok fb) \<and>
   (\<exists>fc. release \<lparr>ids = [3, 4, 5, 9], pending = [7 \<mapsto> [12]], cache = {3, 4, 5, 9, 12}\<rparr> 7 = Inr fc \<and>
         cache_ok fc) \<and>
   cache_ok (rollback \<lparr>ids = [3, 4, 5, 9], pending = [7 \<mapsto> [12]], cache = {3, 4, 5, 9, 12}\<rparr> 7) \<and>
   (\<exists>fd. read newFreelist \<lparr>pid = 2, flags = 16, pcount = 2, overflow = 0, ptr = [7, 5, 0]\<rparr> = Inr fd \<and>
         cache_ok fd) \<and>
   (\<exists>fe. reload newFreelist \<lparr>pid = 2, flags = 16, pcount = 2, overflow = 0, ptr = [7, 5, 0]\<rparr> = Inr fe \<and>
         cache_ok fe)"
proof -
  let ?f = "\<lparr>ids = [3, 4, 5, 9 :: pgid], pending = [7 \<mapsto> [12 :: pgid]], cache = {3, 4, 5, 9, 12 :: pgid}\<rparr>"
  let ?p = "\<lparr>pid = 20 :: pgid, flags = 0, pcount = 0, overflow = 2, ptr = ()\<rparr>"
  let ?q = "\<lparr>pid = 2 :: pgid, flags = 16, pcount = 2, overflow = 0, ptr = [7, 5, 0 :: pgid]\<rparr>"
  have ok: "cache_ok ?f" by (auto simp: cache_ok_def)
  have no: "no_overlap ?f" by (auto simp: no_overlap_def split: if_splits)
  have n: "1 \<le> sint (3 :: goint)" by simp
  have u3: "unat (3 :: goint) = 3" by simp
  have big: "\<forall>x \<in> set (ids ?f). 1 < x" by simp
  have run: "run_at (ids ?f) 0 (unat (3 :: goint))"
    unfolding u3 run_at_def by (simp add: numeral_3_eq_3 less_Suc_eq)
  have first: "\<forall>j' < 0. \<not> run_at (ids ?f) j' (unat (3 :: goint))" by simp
  from allocate_found [OF big n run first] obtain fa where fa: "allocate ?f 3 = Inr (3, fa)"
    by simp
  from cache_invariant [of ?f 3 3 fa] ok no fa have a: "cache_ok fa" by blast
  have hp: "unat (pid ?p) + unat (overflow ?p) < 2 ^ 64 - 1" "\<not> pid ?p \<le> 1"
    "\<forall>x \<in> set (page_ids ?p). x \<notin> cache ?f"
    by (simp_all add: page_ids_20_2 not_le)
  from free_no_panic [OF hp, of 7] obtain fb where fb: "free ?f 7 ?p = Inr fb" by blast
  from cache_invariant [of ?f _ _ _ 7 ?p fb] ok fb have b: "cache_ok fb" by blast
  from release_result [of ?f 7] obtain fc where fc: "release ?f 7 = Inr fc" by blast
  from cache_invariant [of ?f _ _ _ 7 _ _ fc] ok fc have c: "cache_ok fc" by blast
  from cache_invariant [of ?f _ _ _ 7] ok no have d: "cache_ok (rollback ?f 7)" by blast
  have "\<exists>fd. read newFreelist ?q = Inr fd" by (simp add: read_def Let_def)
  then obtain fd where fd: "read newFreelist ?q = Inr fd" by blast
  from cache_invariant [of _ _ _ _ _ _ _ _ newFreelist ?q fd] fd have e: "cache_ok fd" by blast
  from fd have "\<exists>fe. reload newFreelist ?q = Inr fe" by (simp add: reload_def Let_def)
  then obtain fe where fe: "reload newFreelist ?q = Inr fe" by blast
  from cache_invariant [of _ _ _ _ _ _ _ _ newFreelist ?q _ fe] fe have g: "cache_ok fe" by blast
  from ok no fa a fb b fc c d fd e fe g show ?thesis by blast
qed

text \<open>
  Without the second hypothesis the equation is lost. A freelist page that lists page 5
  twice is read into \<open>ids = [5, 5]\<close>, \<open>cache = {5}\<close>, for which the equation holds;
  \<open>allocate(1)\<close> then returns 5, leaves \<open>ids = [5]\<close> and an empty cache. And when the
  transactions 1 and 2 both hold page 5 pending, \<open>rollback(1)\<close> takes 5 out of the cache
  although it is still pending for transaction 2.
\<close>

lemma read_twice_5:
  "read newFreelist \<lparr>pid = 2, flags = 16, pcount = 2, overflow = 0, ptr = [5, 5]\<rparr> =
     Inr \<lparr>ids = [5, 5], pending = Map.empty, cache = {5}\<rparr>"
  by (simp add: read_def Let_def reindex_def newFreelist_def range_values_def range_keys_def copy_def)

lemma allocate_twice_5:
  "allocate \<lparr>ids = [5, 5], pending = Map.empty, cache = {5}\<rparr> 1 =
     Inr (5, \<lparr>ids = [5], pending = Map.empty, cache = {}\<rparr>)"
proof -
  have "uncache_loop 0 1 5 {5} = {}"
    by (subst uncache_loop.simps, simp, subst uncache_loop.simps, simp)
  then show ?thesis
    by (simp add: allocate_def cut_run_def Let_def not_le)
qed

lemma rollback_shared_5:
  "\<not> cache_ok (rollback \<lparr>ids = [], pending = [1 \<mapsto> [5], 2 \<mapsto> [5]], cache = {5}\<rparr> 1)"
proof -
  let ?f = "\<lparr>ids = [], pending = [1 \<mapsto> [5], 2 \<mapsto> [5 :: pgid]], cache = {5 :: pgid}\<rparr>"
  have c: "cache (rollback ?f 1) = {}"
    by (simp add: rollback_def Let_def fold_delete)
  have "pending (rollback ?f 1) 2 = Some [5]"
    by (simp add: rollback_def Let_def)
  then have "5 \<in> \<Union> (set ` ran (pending (rollback ?f 1)))"
    unfolding in_pending_ids by (intro exI [of _ 2] exI [of _ "[5]"]) simp
  with c show ?thesis unfolding cache_ok_def by blast
qed

theorem cache_invariant_counterexample:
  "read newFreelist \<lparr>pid = 2, flags = 16, pcount = 2, overflow = 0, ptr = [5, 5]\<rparr> =
     Inr \<lparr>ids = [5, 5], pending = Map.empty, cache = {5}\<rparr> \<and>
   cache_ok \<lparr>ids = [5, 5], pending = Map.empty, cache = {5}\<rparr> \<and>
   allocate \<lparr>ids = [5, 5], pending = Map.empty, cache = {5}\<rparr> 1 =
     Inr (5, \<lparr>ids = [5], pending = Map.empty, cache = {}\<rparr>) \<and>
   \<not> cache_ok \<lparr>ids = [5], pending = Map.empty, cache = {}\<rparr> \<and>
   cache_ok \<lparr>ids = [], pending = [1 \<mapsto> [5], 2 \<mapsto> [5]], cache = {5}\<rparr> \<and>
   \<not> cache_ok (rollback \<lparr>ids = [], pending = [1 \<mapsto> [5], 2 \<mapsto> [5]], cache = {5}\<rparr> 1)"
proof -
  have a: "cache_ok \<lparr>ids = [5, 5 :: pgid], pending = Map.empty, cache = {5}\<rparr>"
    by (simp add: cache_ok_def)
  have b: "\<not> cache_ok \<lparr>ids = [5 :: pgid], pending = Map.empty, cache = {}\<rparr>"
    by (simp add: cache_ok_def)
  have "\<Union> (set ` ran [1 \<mapsto> [5], 2 \<mapsto> [5 :: pgid]]) = {5 :: pgid}"
    unfolding in_pending_ids set_eq_iff by (auto split: if_splits)
  then have c: "cache_ok \<lparr>ids = [], pending = [1 \<mapsto> [5], 2 \<mapsto> [5 :: pgid]], cache = {5 :: pgid}\<rparr>"
    by (simp add: cache_ok_def)
  from read_twice_5 a allocate_twice_5 b c rollback_shared_5 show ?thesis by blast
qed

section \<open>Serialisation: \<open>write\<close> and \<open>read\<close>\<close>

text \<open>All free and pending ids in one ascending list: what \<^verbatim>\<open>copyall\<close> merges.\<close>

definition all_ids :: "freelist \<Rightarrow> pgid list" where
  "all_ids f = sort (ids f @ concat (range_values (pending f)))"

lemma fold_count: "fold (\<lambda>list count. count + length list) ls c = c + length (concat ls)"
  by (induction ls arbitrary: c) auto

lemma fold_append: "fold (\<lambda>list m. m @ list) ls acc = acc @ concat ls"
  by (induction ls arbitrary: acc) auto

lemma count_eq: "count f = length (ids f) + length (concat (range_values (pending f)))"
  by (simp add: count_def free_count_def pending_count_def fold_count)

lemma length_all_ids: "length (all_ids f) = count f"
  by (simp add: all_ids_def count_eq)

lemma copyall_eq: "copyall f dst = mergepgids dst (ids f) (sort (concat (range_values (pending f))))"
  by (simp add: copyall_def fold_append)

lemma sort_append_sort: "sort (a @ sort b) = sort (a @ (b :: pgid list))"
  by (rule properties_for_sort) simp_all

lemma copyall_sorted:
  assumes "sorted (ids f)" "count f \<le> length dst"
  shows "copyall f dst = Inr (all_ids f @ drop (count f) dst)"
proof -
  let ?m = "sort (concat (range_values (pending f)))"
  have "length (ids f) + length ?m \<le> length dst" using assms(2) by (simp add: count_eq)
  with assms(1) have "mergepgids dst (ids f) ?m = Inr (sort (ids f @ ?m) @ drop (length (ids f) + length ?m) dst)"
    by (intro mergepgids_sorted) simp_all
  then show ?thesis by (simp add: copyall_eq all_ids_def sort_append_sort count_eq)
qed

lemma mergepgids_total:
  assumes "length a + length b \<le> length dst"
  shows "\<exists>out. mergepgids dst a b = Inr out"
proof (cases "a = [] \<or> b = []")
  case True
  with assms show ?thesis by (auto simp: mergepgids_def)
next
  case False
  then have ne: "a \<noteq> []" "b \<noteq> []" by simp_all
  have "\<exists>r. merge_loop [] (if b ! 0 < a ! 0 then b else a) (if b ! 0 < a ! 0 then a else b) = Inr r"
    using merge_loop_total [of "if b ! 0 < a ! 0 then b else a" "if b ! 0 < a ! 0 then a else b" "[]"] ne
    by auto
  then obtain r where "merge_loop [] (if b ! 0 < a ! 0 then b else a) (if b ! 0 < a ! 0 then a else b) = Inr r"
    by blast
  with assms ne show ?thesis
    by (cases "b ! 0 < a ! 0") (simp_all add: mergepgids_def)
qed

lemma copyall_total: "count f \<le> length dst \<Longrightarrow> \<exists>out. copyall f dst = Inr out"
  unfolding copyall_eq by (rule mergepgids_total) (simp add: count_eq)

lemma copyall_short: "length dst < count f \<Longrightarrow> copyall f dst = Inl BadLen"
  unfolding copyall_eq by (rule mergepgids_short) (simp add: count_eq)

text \<open>When \<open>write\<close> returns and when it panics, for any freelist and page.\<close>

lemma write_page_empty:
  "count f = 0 \<Longrightarrow> write_page f p = Inr (p\<lparr>flags := flags p OR freelistPageFlag, pcount := 0\<rparr>, None)"
  by (simp add: write_page_def Let_def)

lemma write_page_small_total:
  assumes "0 < count f" "count f < 0xFFFF" "count f \<le> length (ptr p)"
  shows "\<exists>p'. write_page f p = Inr (p', None)"
proof -
  from copyall_total [OF assms(3)] obtain out where "copyall f (ptr p) = Inr out" by blast
  with assms(1,2) show ?thesis by (simp add: write_page_def Let_def)
qed

lemma write_page_large_total:
  assumes "0xFFFF \<le> count f" "count f < length (ptr p)"
  shows "\<exists>p'. write_page f p = Inr (p', None)"
proof -
  from assms(2) obtain c rest where ptr: "ptr p = c # rest" by (cases "ptr p") auto
  with assms(2) have "count f \<le> length rest" by simp
  from copyall_total [OF this] obtain out where "copyall f rest = Inr out" by blast
  with assms(1) ptr show ?thesis by (simp add: write_page_def Let_def)
qed

lemma write_page_small_panic:
  assumes "0 < count f" "count f < 0xFFFF" "length (ptr p) < count f"
  shows "write_page f p = Inl BadLen"
  using assms copyall_short [OF assms(3)] by (simp add: write_page_def Let_def)

lemma write_page_large_panic:
  assumes "0xFFFF \<le> count f" "length (ptr p) \<le> count f"
  shows "write_page f p = Inl (if ptr p = [] then IndexOutOfRange else BadLen)"
proof (cases "ptr p")
  case Nil
  with assms(1) show ?thesis by (simp add: write_page_def Let_def)
next
  case (Cons c rest)
  with assms(2) have "length rest < count f" by simp
  from copyall_short [OF this] Cons assms(1) show ?thesis by (simp add: write_page_def Let_def)
qed

lemma write_page_error_nil: "write_page f p = Inr (p', e) \<Longrightarrow> e = None"
  by (auto simp: write_page_def Let_def split: if_splits sum.splits list.splits)
text \<open>
  \<^bold>\<open>C10\<close>, as amended: \<open>write\<close> never returns an error other than \<^verbatim>\<open>nil\<close>. It returns (with
  \<^verbatim>\<open>nil\<close>) exactly when the ids fit into the page array: \<open>count() = 0\<close>, or
  \<open>count() < 0xFFFF\<close> and \<open>count() \<le> maxAllocSize\<close>, or \<open>count() \<ge> 0xFFFF\<close> and
  \<open>count() < maxAllocSize\<close> (slot 0 holds the count); otherwise it panics, in \<^verbatim>\<open>mergepgids\<close>.
\<close>

theorem write_page_nil_or_panic:
  "(\<forall>p' e. write_page f p = Inr (p', e) \<longrightarrow> e = None) \<and>
   ((count f = 0 \<or> (count f < 0xFFFF \<and> count f \<le> length (ptr p)) \<or>
     (0xFFFF \<le> count f \<and> count f < length (ptr p))) \<longrightarrow>
      (\<exists>p'. write_page f p = Inr (p', None))) \<and>
   (\<not> (count f = 0 \<or> (count f < 0xFFFF \<and> count f \<le> length (ptr p)) \<or>
       (0xFFFF \<le> count f \<and> count f < length (ptr p))) \<longrightarrow>
      (\<exists>e. write_page f p = Inl e))"
proof (intro conjI allI impI)
  fix p' e
  assume "write_page f p = Inr (p', e)"
  then show "e = None" by (rule write_page_error_nil)
next
  assume fits: "count f = 0 \<or> (count f < 0xFFFF \<and> count f \<le> length (ptr p)) \<or>
     (0xFFFF \<le> count f \<and> count f < length (ptr p))"
  show "\<exists>p'. write_page f p = Inr (p', None)"
  proof (cases "count f = 0")
    case True
    then show ?thesis by (simp add: write_page_empty)
  next
    case False
    with fits consider "0 < count f" "count f < 0xFFFF" "count f \<le> length (ptr p)"
      | "0xFFFF \<le> count f" "count f < length (ptr p)"
      by auto
    then show ?thesis
    proof cases
      case 1
      then show ?thesis by (rule write_page_small_total)
    next
      case 2
      then show ?thesis by (rule write_page_large_total)
    qed
  qed
next
  assume no: "\<not> (count f = 0 \<or> (count f < 0xFFFF \<and> count f \<le> length (ptr p)) \<or>
       (0xFFFF \<le> count f \<and> count f < length (ptr p)))"
  show "\<exists>e. write_page f p = Inl e"
  proof (cases "count f < 0xFFFF")
    case True
    with no have "0 < count f" "length (ptr p) < count f" by auto
    with True show ?thesis using write_page_small_panic by blast
  next
    case False
    with no have "0xFFFF \<le> count f" "length (ptr p) \<le> count f" by auto
    then show ?thesis using write_page_large_panic by blast
  qed
qed

lemma range_values_empty [simp]: "range_values Map.empty = []"
  by (simp add: range_values_def range_keys_def)

lemma range_values_single [simp]: "range_values [t \<mapsto> l] = [l]"
  by (simp add: range_values_def range_keys_def)

text \<open>The small round trip of the specification: \<open>ids = [5,7]\<close>, \<open>pending = {7: [9]}\<close> fit a
  page, and three ids do not fit an array of two slots.\<close>

theorem write_page_nil_or_panic_witness:
  "count \<lparr>ids = [5, 7], pending = [7 \<mapsto> [9]], cache = {5, 7, 9}\<rparr> = 3 \<and>
   (\<exists>p'. write_page \<lparr>ids = [5, 7], pending = [7 \<mapsto> [9]], cache = {5, 7, 9}\<rparr>
            \<lparr>pid = 4, flags = 0, pcount = 0, overflow = 0, ptr = [0, 0, 0, 0]\<rparr> = Inr (p', None)) \<and>
   (\<exists>e. write_page \<lparr>ids = [5, 7], pending = [7 \<mapsto> [9]], cache = {5, 7, 9}\<rparr>
            \<lparr>pid = 4, flags = 0, pcount = 0, overflow = 0, ptr = [0, 0]\<rparr> = Inl e)"
proof -
  let ?f = "\<lparr>ids = [5, 7 :: pgid], pending = [7 \<mapsto> [9 :: pgid]], cache = {5, 7, 9 :: pgid}\<rparr>"
  let ?p = "\<lparr>pid = 4 :: pgid, flags = 0, pcount = 0, overflow = 0, ptr = [0, 0, 0, 0 :: pgid]\<rparr>"
  let ?q = "\<lparr>pid = 4 :: pgid, flags = 0, pcount = 0, overflow = 0, ptr = [0, 0 :: pgid]\<rparr>"
  have c: "count ?f = 3" by (simp add: count_eq)
  have fits: "count ?f = 0 \<or> (count ?f < 0xFFFF \<and> count ?f \<le> length (ptr ?p)) \<or>
     (0xFFFF \<le> count ?f \<and> count ?f < length (ptr ?p))"
    unfolding c by simp
  have no: "\<not> (count ?f = 0 \<or> (count ?f < 0xFFFF \<and> count ?f \<le> length (ptr ?q)) \<or>
     (0xFFFF \<le> count ?f \<and> count ?f < length (ptr ?q)))"
    unfolding c by simp
  from write_page_nil_or_panic [of ?f ?p] fits have a: "\<exists>p'. write_page ?f ?p = Inr (p', None)"
    by blast
  from write_page_nil_or_panic [of ?f ?q] no have b: "\<exists>e. write_page ?f ?q = Inl e"
    by blast
  from c a b show ?thesis by blast
qed

text \<open>
  The ids \<open>2, 3, \<dots>, n + 1\<close>, and a zeroed page whose body array has \<open>maxAllocSize\<close> slots.
\<close>

definition ids_from_2 :: "nat \<Rightarrow> pgid list" where
  "ids_from_2 n = map of_nat [2..<n + 2]"

definition zero_page :: "nat \<Rightarrow> pgid list page" where
  "zero_page maxAllocSize = \<lparr>pid = 0, flags = 0, pcount = 0, overflow = 0, ptr = replicate maxAllocSize 0\<rparr>"

lemma length_ids_from_2 [simp]: "length (ids_from_2 n) = n"
  unfolding ids_from_2_def by (simp only: length_map length_upt add_diff_cancel_right')

lemma length_zero_page [simp]: "length (ptr (zero_page n)) = n"
  by (simp add: zero_page_def)

lemma zero_page_nonempty: "0 < n \<Longrightarrow> ptr (zero_page n) \<noteq> []"
  by (simp add: zero_page_def)

text \<open>
  The claim as stated, for every freelist state, fails when the ids do not fit the page
  array. With the array of \<open>0x7FFFFFFF\<close> slots (the \<^verbatim>\<open>maxAllocSize\<close> of 64-bit targets) and
  as many free ids, slot 0 takes the count, the destination of \<^verbatim>\<open>copyall\<close> is one slot
  short and \<^verbatim>\<open>mergepgids\<close> panics.
\<close>

theorem write_page_panics_counterexample:
  "write_page \<lparr>ids = ids_from_2 0x7FFFFFFF, pending = Map.empty, cache = set (ids_from_2 0x7FFFFFFF)\<rparr>
     (zero_page 0x7FFFFFFF) = Inl BadLen"
proof -
  let ?f = "\<lparr>ids = ids_from_2 0x7FFFFFFF, pending = Map.empty, cache = set (ids_from_2 0x7FFFFFFF)\<rparr>"
  have c: "count ?f = 0x7FFFFFFF" by (simp add: count_eq)
  have "0xFFFF \<le> count ?f" "length (ptr (zero_page 0x7FFFFFFF)) \<le> count ?f"
    unfolding c by simp_all
  from write_page_large_panic [OF this] zero_page_nonempty [of "0x7FFFFFFF"] show ?thesis
    by simp
qed
subsection \<open>\<open>read\<close> after \<open>write\<close>\<close>

lemma copy_zeroed: "length xs = k \<Longrightarrow> copy (replicate k z) xs = xs"
  by (simp add: copy_def)

lemma reindex_fresh:
  "reindex \<lparr>ids = xs, pending = Map.empty, cache = c\<rparr> =
     \<lparr>ids = xs, pending = Map.empty, cache = set xs\<rparr>"
  by (simp add: reindex_def fold_insert)

lemma sint_of_nat_small:
  assumes "n < 2 ^ 63"
  shows "sint (of_nat n :: pgid) = int n"
proof -
  have "- (2 ^ 63) \<le> int n" by (rule order_trans [of _ 0]) simp_all
  moreover have "int n < 2 ^ 63" using assms by (simp flip: of_nat_less_iff)
  ultimately have "signed_take_bit 63 (int n) = int n" by (rule signed_take_bit_int_eq_self)
  then show ?thesis by (simp add: signed_of_nat)
qed

lemma uint_of_nat_small:
  assumes "n < 0xFFFF"
  shows "uint (of_nat n :: 16 word) = int n" "(of_nat n :: 16 word) \<noteq> 0xFFFF"
proof -
  have u: "unat (of_nat n :: 16 word) = n" using assms by (simp add: unat_of_nat)
  then show "uint (of_nat n :: 16 word) = int n" by (metis of_nat_unat of_nat_id ucast_id uint_nat)
  show "(of_nat n :: 16 word) \<noteq> 0xFFFF"
  proof
    assume "(of_nat n :: 16 word) = 0xFFFF"
    then have "unat (of_nat n :: 16 word) = 0xFFFF" by simp
    with u assms show False by simp
  qed
qed

text \<open>\<open>read\<close> of a page whose header count is below \<open>0xFFFF\<close>: the first \<open>count\<close> slots.\<close>
lemma read_small:
  assumes "pcount p = of_nat n" "n < 0xFFFF" "ptr p = body" "n \<le> length body"
  shows "read g p = Inr (reindex (g\<lparr>ids := sort (take n body)\<rparr>))"
proof -
  note assms(3) [simp]
  have u: "uint (pcount p) = int n" "uint (pcount p) \<noteq> 0xFFFF"
    using uint_of_nat_small [OF assms(2)] assms(1,2) by simp_all
  show ?thesis
  proof (cases "n = 0")
    case True
    with u show ?thesis by (simp add: read_def Let_def)
  next
    case False
    with u assms(4) show ?thesis by (simp add: read_def Let_def copy_zeroed)
  qed
qed

text \<open>\<open>read\<close> of a page whose header count is \<open>0xFFFF\<close>: slot 0 is the count \<open>n\<close>, and the ids
  are the slice \<^verbatim>\<open>[1:n]\<close>, the \<open>n - 1\<close> slots after it.\<close>
lemma read_large:
  assumes "pcount p = 0xFFFF" "ptr p = of_nat n # rest" "0 < n" "n < 2 ^ 63" "n \<le> Suc (length rest)"
  shows "read g p = Inr (reindex (g\<lparr>ids := sort (take (n - 1) rest)\<rparr>))"
proof -
  have s: "sint (of_nat n :: pgid) = int n" using assms(4) by (rule sint_of_nat_small)
  have d: "drop (Suc 0) (take n (of_nat n # rest)) = take (n - Suc 0) rest"
    using assms(3) by (cases n) simp_all
  have l: "length (take (n - Suc 0) rest) = n - Suc 0" using assms(5) by simp
  show ?thesis
    using assms(3,5) unfolding read_def Let_def assms(1,2)
    by (simp add: s d copy_zeroed [OF l])
qed

lemma write_page_small:
  assumes "sorted (ids f)" "0 < count f" "count f < 0xFFFF" "count f \<le> length (ptr p)"
  shows "write_page f p =
           Inr (p\<lparr>flags := flags p OR freelistPageFlag, pcount := of_nat (count f),
                   ptr := all_ids f @ drop (count f) (ptr p)\<rparr>, None)"
  using assms(2,3) copyall_sorted [OF assms(1,4)] by (simp add: write_page_def Let_def)

lemma write_page_large:
  assumes "sorted (ids f)" "0xFFFF \<le> count f" "count f < length (ptr p)"
  shows "write_page f p =
           Inr (p\<lparr>flags := flags p OR freelistPageFlag, pcount := 0xFFFF,
                   ptr := of_nat (count f) # all_ids f @ drop (Suc (count f)) (ptr p)\<rparr>, None)"
proof -
  from assms(3) obtain c rest where ptr: "ptr p = c # rest" by (cases "ptr p") auto
  with assms(3) have "count f \<le> length rest" by simp
  from copyall_sorted [OF assms(1) this] assms(2) ptr show ?thesis
    by (simp add: write_page_def Let_def)
qed

text \<open>
  The round trip below the escape: a fresh freelist reads back all free and pending ids,
  ascending, with no pending entries and the cache rebuilt.
\<close>
lemma write_read_small:
  assumes "sorted (ids f)" "count f < 0xFFFF" "count f \<le> length (ptr p)"
  shows "\<exists>p'. write_page f p = Inr (p', None) \<and>
              read newFreelist p' =
                Inr \<lparr>ids = all_ids f, pending = Map.empty, cache = set (all_ids f)\<rparr>"
proof (cases "count f = 0")
  case True
  then have "all_ids f = []" using length_all_ids [of f] by simp
  moreover have "read newFreelist (p\<lparr>flags := flags p OR freelistPageFlag, pcount := 0\<rparr>) =
          Inr (reindex (newFreelist\<lparr>ids := []\<rparr>))"
    by (simp add: read_def Let_def)
  ultimately show ?thesis
    using True by (simp add: write_page_empty newFreelist_def reindex_fresh)
next
  case False
  let ?body = "all_ids f @ drop (count f) (ptr p)"
  let ?p' = "p\<lparr>flags := flags p OR freelistPageFlag, pcount := of_nat (count f), ptr := ?body\<rparr>"
  have w: "write_page f p = Inr (?p', None)"
    using assms False by (intro write_page_small) simp_all
  have tk: "take (count f) ?body = all_ids f" by (simp add: length_all_ids)
  have srt: "sort (all_ids f) = all_ids f" by (simp add: all_ids_def sort_key_id_if_sorted)
  have fresh: "reindex (newFreelist\<lparr>ids := all_ids f\<rparr>) =
                 \<lparr>ids = all_ids f, pending = Map.empty, cache = set (all_ids f)\<rparr>"
    by (simp add: newFreelist_def reindex_fresh)
  have "read newFreelist ?p' = Inr (reindex (newFreelist\<lparr>ids := sort (take (count f) ?body)\<rparr>))"
    using assms by (intro read_small) (simp_all add: length_all_ids)
  then have "read newFreelist ?p' =
      Inr \<lparr>ids = all_ids f, pending = Map.empty, cache = set (all_ids f)\<rparr>"
    by (simp only: tk srt fresh)
  with w show ?thesis by blast
qed

text \<open>
  The round trip through the escape: \<open>write\<close> stores the count \<open>n\<close> in slot 0 and the \<open>n\<close> ids in
  slots \<open>1 \<dots> n\<close>, but \<open>read\<close> takes the slice \<^verbatim>\<open>[1:n]\<close>, the slots \<open>1 \<dots> n - 1\<close>: the largest id
  is lost.
\<close>
lemma write_read_large:
  assumes "sorted (ids f)" "0xFFFF \<le> count f" "count f < length (ptr p)" "count f < 2 ^ 63"
  shows "\<exists>p'. write_page f p = Inr (p', None) \<and>
              read newFreelist p' =
                Inr \<lparr>ids = butlast (all_ids f), pending = Map.empty, cache = set (butlast (all_ids f))\<rparr>"
proof -
  let ?rest = "all_ids f @ drop (Suc (count f)) (ptr p)"
  let ?p' = "p\<lparr>flags := flags p OR freelistPageFlag, pcount := 0xFFFF,
               ptr := of_nat (count f) # ?rest\<rparr>"
  have w: "write_page f p = Inr (?p', None)"
    using assms(1,2,3) by (rule write_page_large)
  have tk: "take (count f - 1) ?rest = butlast (all_ids f)"
    by (simp add: length_all_ids butlast_conv_take)
  have "sorted (butlast (all_ids f))"
    by (simp add: all_ids_def butlast_conv_take sorted_wrt_take)
  then have srt: "sort (butlast (all_ids f)) = butlast (all_ids f)"
    by (simp add: sort_key_id_if_sorted)
  have fresh: "reindex (newFreelist\<lparr>ids := butlast (all_ids f)\<rparr>) =
                 \<lparr>ids = butlast (all_ids f), pending = Map.empty, cache = set (butlast (all_ids f))\<rparr>"
    by (simp add: newFreelist_def reindex_fresh)
  have "read newFreelist ?p' = Inr (reindex (newFreelist\<lparr>ids := sort (take (count f - 1) ?rest)\<rparr>))"
    using assms(2,4) by (intro read_large) (simp_all add: length_all_ids)
  then have "read newFreelist ?p' =
      Inr \<lparr>ids = butlast (all_ids f), pending = Map.empty, cache = set (butlast (all_ids f))\<rparr>"
    by (simp only: tk srt fresh)
  with w show ?thesis by blast
qed
lemma unat_of_nat_pgid: "k < 2 ^ 64 \<Longrightarrow> unat (of_nat k :: pgid) = k"
  by (simp add: unat_of_nat)

lemma sorted_ids_from_2:
  assumes "n + 2 \<le> 2 ^ 64"
  shows "sorted_wrt (<) (ids_from_2 n)"
proof -
  have lt: "(of_nat x :: pgid) < of_nat y"
    if "x \<in> set [2..<n + 2]" "y \<in> set [2..<n + 2]" "x < y" for x y
  proof -
    have "x < n + 2" "y < n + 2" using that(1,2) by (simp_all only: set_upt atLeastLessThan_iff)
    then have "x < 2 ^ 64" "y < 2 ^ 64" using assms by linarith+
    then have "unat (of_nat x :: pgid) = x" "unat (of_nat y :: pgid) = y"
      by (simp_all only: unat_of_nat_pgid)
    with that(3) show ?thesis by (simp add: word_less_nat_alt)
  qed
  have "sorted_wrt (<) [2..<n + 2]" by (rule sorted_wrt_upt)
  then have "sorted_wrt (\<lambda>x y. (of_nat x :: pgid) < of_nat y) [2..<n + 2]"
    by (rule sorted_wrt_mono_rel [rotated]) (rule lt)
  then show ?thesis
    unfolding ids_from_2_def by (simp only: sorted_wrt_map)
qed

lemma butlast_ids_from_2: "butlast (ids_from_2 (Suc n)) = ids_from_2 n"
  by (simp add: ids_from_2_def map_butlast [symmetric])

lemma set_ids_from_2: "set (ids_from_2 n) = of_nat ` {2..<n + 2}"
  unfolding ids_from_2_def by (simp only: set_map set_upt)

lemma in_ids_from_2:
  assumes "k < 2 ^ 64" "n + 2 \<le> 2 ^ 64"
  shows "of_nat k \<in> set (ids_from_2 n) \<longleftrightarrow> 2 \<le> k \<and> k < n + 2"
proof
  assume "of_nat k \<in> set (ids_from_2 n)"
  then obtain i where i: "2 \<le> i" "i < n + 2" "(of_nat k :: pgid) = of_nat i"
    unfolding set_ids_from_2 by (auto simp del: of_nat_add)
  then have "unat (of_nat k :: pgid) = unat (of_nat i :: pgid)" by simp
  moreover have "i < 2 ^ 64" using i assms by simp
  ultimately have "k = i" using assms(1) by (simp only: unat_of_nat_pgid)
  with i show "2 \<le> k \<and> k < n + 2" by simp
next
  assume "2 \<le> k \<and> k < n + 2"
  then have "k \<in> {2..<n + 2}" by simp
  then show "of_nat k \<in> set (ids_from_2 n)" unfolding set_ids_from_2 by (rule imageI)
qed

text \<open>
  \<^bold>\<open>C1\<close> at the scenario of the specification with 65 536 ids (the ids 2 to 65 537, no pending
  pages, a page with the array of \<open>0x7FFFFFFF\<close> slots): \<open>write\<close> returns, and \<open>read\<close> into a
  fresh freelist gives back the 65 535 ids 2 to 65 536 only. The id 65 537 is free before
  the round trip and neither in \<open>ids\<close> nor in the cache after it.
\<close>

theorem write_read_escape_drops_last_id:
  "(\<exists>p'. write_page \<lparr>ids = ids_from_2 65536, pending = Map.empty, cache = set (ids_from_2 65536)\<rparr>
            (zero_page 0x7FFFFFFF) = Inr (p', None) \<and>
         read newFreelist p' =
           Inr \<lparr>ids = ids_from_2 65535, pending = Map.empty, cache = set (ids_from_2 65535)\<rparr>) \<and>
   65537 \<in> set (ids_from_2 65536) \<and> 65537 \<notin> set (ids_from_2 65535) \<and>
   ids_from_2 65535 \<noteq> ids_from_2 65536"
proof -
  let ?f = "\<lparr>ids = ids_from_2 65536, pending = Map.empty, cache = set (ids_from_2 65536)\<rparr>"
  have srt: "sorted_wrt (<) (ids_from_2 65536)" by (rule sorted_ids_from_2) simp
  then have s: "sorted (ids ?f)" by (simp add: strict_sorted_imp_sorted)
  have c: "count ?f = 65536" by (simp add: count_eq)
  have "all_ids ?f = sort (ids_from_2 65536)" by (simp add: all_ids_def)
  also have "\<dots> = ids_from_2 65536" using s by (simp add: sort_key_id_if_sorted)
  finally have a: "all_ids ?f = ids_from_2 65536" .
  have "ids_from_2 65536 = ids_from_2 (Suc 65535)" by simp
  then have b: "butlast (all_ids ?f) = ids_from_2 65535"
    unfolding a by (simp only: butlast_ids_from_2)
  have h: "0xFFFF \<le> count ?f" "count ?f < length (ptr (zero_page 0x7FFFFFFF))" "count ?f < 2 ^ 63"
    unfolding c by simp_all
  from write_read_large [OF s h] have rt:
    "\<exists>p'. write_page ?f (zero_page 0x7FFFFFFF) = Inr (p', None) \<and>
          read newFreelist p' =
            Inr \<lparr>ids = ids_from_2 65535, pending = Map.empty, cache = set (ids_from_2 65535)\<rparr>"
    unfolding b .
  have "(of_nat 65537 :: pgid) \<in> set (ids_from_2 65536)"
    by (subst in_ids_from_2) simp_all
  then have m1: "65537 \<in> set (ids_from_2 65536)" by simp
  have "(of_nat 65537 :: pgid) \<notin> set (ids_from_2 65535)"
    by (subst in_ids_from_2) simp_all
  then have m2: "65537 \<notin> set (ids_from_2 65535)" by simp
  from m1 m2 have "ids_from_2 65535 \<noteq> ids_from_2 65536" by metis
  with rt m1 m2 show ?thesis by blast
qed
section \<open>The cursor\<close>

subsection \<open>Keys, nodes, page elements\<close>

text \<open>
  Keys and values are byte slices. \<^verbatim>\<open>bytes.Compare\<close> orders them lexicographically,
  byte by byte and a proper prefix first, and returns \<open>-1\<close>, \<open>0\<close> or \<open>1\<close>.
\<close>

type_synonym bytes = "8 word list"

fun Compare :: "bytes \<Rightarrow> bytes \<Rightarrow> int" where
  "Compare [] [] = 0"
| "Compare [] (y # ys) = - 1"
| "Compare (x # xs) [] = 1"
| "Compare (x # xs) (y # ys) = (if x < y then - 1 else if y < x then 1 else Compare xs ys)"

text \<open>
  \<^verbatim>\<open>sort.Search\<close> again, for a closure that writes a captured variable: \<^verbatim>\<open>searchNode\<close> and
  \<^verbatim>\<open>searchPage\<close> set \<^verbatim>\<open>exact = true\<close> inside the predicate. The captured variable is threaded
  through the probes in the order the binary search makes them.
\<close>

function search_loop_st :: "(nat \<Rightarrow> 's \<Rightarrow> bool \<times> 's) \<Rightarrow> nat \<Rightarrow> nat \<Rightarrow> 's \<Rightarrow> nat \<times> 's" where
  "search_loop_st f i j s =
     (if i < j then
        (let h = (i + j) div 2; (b, s') = f h s in
         if \<not> b then search_loop_st f (h + 1) j s' else search_loop_st f i h s')
      else (i, s))"
  by pat_completeness auto
termination
  by (relation "measure (\<lambda>(f, i, j, s). j - i)") auto

declare search_loop_st.simps [simp del]

definition SearchS :: "nat \<Rightarrow> (nat \<Rightarrow> 's \<Rightarrow> bool \<times> 's) \<Rightarrow> 's \<Rightarrow> nat \<times> 's" where
  "SearchS n f s = search_loop_st f 0 n s"

text \<open>
  Modelled from the spec: the type \<^verbatim>\<open>node\<close> and its \<^verbatim>\<open>inode\<close>s are declared in a file that is not
  among the sources; the specification gives a node \<open>isLeaf\<close> and an ordered sequence of
  inodes \<open>{flags, pgid, key, value}\<close>.
\<close>

record inode =
  iflags :: "32 word"
  ipgid :: pgid
  ikey :: bytes
  ivalue :: bytes

record node =
  isLeaf :: bool
  inodes :: "inode list"

text \<open>
  A branch or leaf page element addresses its key (and value) by an offset from its own
  address (\<^verbatim>\<open>pos\<close>, \<^verbatim>\<open>ksize\<close>, \<^verbatim>\<open>vsize\<close>); the model keeps the bytes that \<^verbatim>\<open>key()\<close> and
  \<^verbatim>\<open>value()\<close> return. The body of a tree page is read through the two casts
  \<^verbatim>\<open>(*[0x7FFFFFF]branchPageElement)(unsafe.Pointer(&p.ptr))\<close> and
  \<^verbatim>\<open>(*[0x7FFFFFF]leafPageElement)(unsafe.Pointer(&p.ptr))\<close>: two views of the same memory, a
  function from the slot to the element each. A \<^verbatim>\<open>uint16\<close> index is always inside the
  array, so reading a slot never panics; slots at and after \<open>count\<close> hold whatever the
  view holds there. The slices \<^verbatim>\<open>p.branchPageElements()\<close> and \<^verbatim>\<open>p.leafPageElements()\<close> are the
  same views, indexed by an \<^verbatim>\<open>int\<close> below \<open>count\<close>, and \<^verbatim>\<open>nil\<close> when \<open>count\<close> is 0.
\<close>

record branchPageElement =
  bkey :: bytes
  bpgid :: pgid

record leafPageElement =
  lflags :: "32 word"
  lkey :: bytes
  lvalue :: bytes

record tree_body =
  as_branch :: "nat \<Rightarrow> branchPageElement"
  as_leaf :: "nat \<Rightarrow> leafPageElement"

type_synonym tpage = "tree_body page"

definition branchPageElement :: "tpage \<Rightarrow> 16 word \<Rightarrow> branchPageElement" where
  "branchPageElement p index = as_branch (ptr p) (unat index)"

definition leafPageElement :: "tpage \<Rightarrow> 16 word \<Rightarrow> leafPageElement" where
  "leafPageElement p index = as_leaf (ptr p) (unat index)"

text \<open>
  Modelled from the spec: \<^verbatim>\<open>Bucket\<close> and \<^verbatim>\<open>Tx\<close> are external collaborators. The cursor uses
  the root page id, the resolver \<^verbatim>\<open>pageNode(pgid)\<close>, which returns the mapped page or the
  cached node of a page id, and \<^verbatim>\<open>tx.db != nil\<close> (the transaction is open).
\<close>

record bucket =
  root :: pgid
  pageNode :: "pgid \<Rightarrow> tpage option \<times> node option"
  tx_db :: bool

record elemRef =
  page :: "tpage option"
  node :: "node option"
  index :: int

record Cursor =
  bucket :: bucket
  stack :: "elemRef list"

type_synonym kv = "bytes option \<times> bytes option \<times> 32 word"

subsection \<open>Frames\<close>

text \<open>\<^verbatim>\<open>elemRef.isLeaf\<close> and \<^verbatim>\<open>elemRef.count\<close>: the node when there is one, else the page.\<close>

definition ref_isLeaf :: "elemRef \<Rightarrow> panic + bool" where
  "ref_isLeaf r =
     (case node r of
        Some n \<Rightarrow> Inr (isLeaf n)
      | None \<Rightarrow>
          (case page r of
             None \<Rightarrow> Inl NilDereference
           | Some p \<Rightarrow> Inr (flags p AND leafPageFlag \<noteq> 0)))"

definition ref_count :: "elemRef \<Rightarrow> panic + int" where
  "ref_count r =
     (case node r of
        Some n \<Rightarrow> Inr (int (length (inodes n)))
      | None \<Rightarrow>
          (case page r of
             None \<Rightarrow> Inl NilDereference
           | Some p \<Rightarrow> Inr (uint (pcount p))))"

text \<open>\<^verbatim>\<open>c.stack[len(c.stack)-1]\<close>, and the assignment to its \<^verbatim>\<open>index\<close>.\<close>

definition top :: "Cursor \<Rightarrow> panic + elemRef" where
  "top c = (if stack c = [] then Inl IndexOutOfRange else Inr (last (stack c)))"

definition set_top_index :: "Cursor \<Rightarrow> int \<Rightarrow> panic + Cursor" where
  "set_top_index c i =
     (if stack c = [] then Inl IndexOutOfRange
      else Inr (c\<lparr>stack := butlast (stack c) @ [(last (stack c))\<lparr>index := i\<rparr>]\<rparr>))"

definition keyValue :: "Cursor \<Rightarrow> panic + kv" where
  "keyValue c =
     (case top c of
        Inl e \<Rightarrow> Inl e
      | Inr ref \<Rightarrow>
          (case ref_count ref of
             Inl e \<Rightarrow> Inl e
           | Inr n \<Rightarrow>
               if n = 0 \<or> index ref \<ge> n then Inr (None, None, 0)
               else
                 (case node ref of
                    Some nd \<Rightarrow>
                      if index ref < 0 then Inl IndexOutOfRange
                      else
                        (let inode = inodes nd ! nat (index ref)
                         in Inr (Some (ikey inode), Some (ivalue inode), iflags inode))
                  | None \<Rightarrow>
                      (case page ref of
                         None \<Rightarrow> Inl NilDereference
                       | Some p \<Rightarrow>
                           (let elem = leafPageElement p (word_of_int (index ref))
                            in Inr (Some (lkey elem), Some (lvalue elem), lflags elem))))))"

text \<open>The child page id that \<^verbatim>\<open>first\<close> reads at a branch frame:
  \<^verbatim>\<open>ref.node.inodes[ref.index].pgid\<close>, or \<^verbatim>\<open>ref.page.branchPageElement(uint16(ref.index)).pgid\<close>.\<close>

definition child_pgid :: "elemRef \<Rightarrow> panic + pgid" where
  "child_pgid ref =
     (case node ref of
        Some nd \<Rightarrow>
          if index ref < 0 \<or> int (length (inodes nd)) \<le> index ref then Inl IndexOutOfRange
          else Inr (ipgid (inodes nd ! nat (index ref)))
      | None \<Rightarrow>
          (case page ref of
             None \<Rightarrow> Inl NilDereference
           | Some p \<Rightarrow> Inr (bpgid (branchPageElement p (word_of_int (index ref))))))"

subsection \<open>first and next\<close>

text \<open>
  The loops of the cursor follow page ids through \<^verbatim>\<open>pageNode\<close> and need not end on an
  arbitrary store: they are partial functions, \<open>None\<close> when the loop runs forever.
\<close>

partial_function (option) first :: "Cursor \<Rightarrow> (panic + Cursor) option" where
  "first c =
     (case top c of
        Inl e \<Rightarrow> Some (Inl e)
      | Inr ref \<Rightarrow>
          (case ref_isLeaf ref of
             Inl e \<Rightarrow> Some (Inl e)
           | Inr leaf \<Rightarrow>
               if leaf then Some (Inr c)
               else
                 (case child_pgid ref of
                    Inl e \<Rightarrow> Some (Inl e)
                  | Inr pgid \<Rightarrow>
                      (case pageNode (bucket c) pgid of
                         (p, n) \<Rightarrow>
                           first (c\<lparr>stack := stack c @ [\<lparr>page = p, node = n, index = 0\<rparr>]\<rparr>)))))"

text \<open>
  The inner loop of \<^verbatim>\<open>next\<close>, \<^verbatim>\<open>for i = len(c.stack) - 1; i >= 0; i--\<close>, with \<open>k = i + 1\<close> frames
  left to look at: it returns the stack and the final \<open>i\<close>, which is \<open>-1\<close> when no frame
  could move.
\<close>

fun move_up :: "elemRef list \<Rightarrow> nat \<Rightarrow> panic + elemRef list \<times> int" where
  "move_up stk 0 = Inr (stk, - 1)"
| "move_up stk (Suc i) =
     (case ref_count (stk ! i) of
        Inl e \<Rightarrow> Inl e
      | Inr n \<Rightarrow>
          if index (stk ! i) < n - 1
          then Inr (stk[i := (stk ! i)\<lparr>index := index (stk ! i) + 1\<rparr>], int i)
          else move_up stk i)"

text \<open>\<^verbatim>\<open>Cursor.next\<close> (\<open>next\<close> is a keyword of Isabelle, hence \<open>next_elem\<close>).\<close>

partial_function (option) next_elem :: "Cursor \<Rightarrow> (panic + Cursor \<times> kv) option" where
  "next_elem c =
     (case move_up (stack c) (length (stack c)) of
        Inl e \<Rightarrow> Some (Inl e)
      | Inr (stk, i) \<Rightarrow>
          if i = - 1 then Some (Inr (c, (None, None, 0)))
          else
            (case first (c\<lparr>stack := take (nat (i + 1)) stk\<rparr>) of
               None \<Rightarrow> None
             | Some (Inl e) \<Rightarrow> Some (Inl e)
             | Some (Inr c') \<Rightarrow>
                 (case top c' of
                    Inl e \<Rightarrow> Some (Inl e)
                  | Inr ref \<Rightarrow>
                      (case ref_count ref of
                         Inl e \<Rightarrow> Some (Inl e)
                       | Inr n \<Rightarrow>
                           if n = 0 then next_elem c'
                           else
                             (case keyValue c' of
                                Inl e \<Rightarrow> Some (Inl e)
                              | Inr res \<Rightarrow> Some (Inr (c', res)))))))"

subsection \<open>search\<close>

text \<open>\<^verbatim>\<open>nsearch\<close>: the leftmost element of the leaf on top of the stack whose key is not
  below the search key.\<close>

definition nsearch :: "Cursor \<Rightarrow> bytes \<Rightarrow> panic + Cursor" where
  "nsearch c key =
     (case top c of
        Inl e \<Rightarrow> Inl e
      | Inr e \<Rightarrow>
          (case node e of
             Some n \<Rightarrow>
               (let index = Search (length (inodes n))
                              (\<lambda>i. Compare (ikey (inodes n ! i)) key \<noteq> - 1)
                in set_top_index c (int index))
           | None \<Rightarrow>
               (case page e of
                  None \<Rightarrow> Inl NilDereference
                | Some p \<Rightarrow>
                    (let index = Search (unat (pcount p))
                                   (\<lambda>i. Compare (lkey (as_leaf (ptr p) i)) key \<noteq> - 1)
                     in set_top_index c (int index)))))"

text \<open>
  The index that \<^verbatim>\<open>searchNode\<close> and \<^verbatim>\<open>searchPage\<close> compute before they recurse: the binary
  search with the closure that records an exact match, then one step back when the match
  is not exact and the index is positive.
\<close>

definition searchNode_index :: "bytes \<Rightarrow> node \<Rightarrow> nat" where
  "searchNode_index key n =
     (let (index, exact) =
            SearchS (length (inodes n))
              (\<lambda>i exact. let ret = Compare (ikey (inodes n ! i)) key
                          in (ret \<noteq> - 1, if ret = 0 then True else exact))
              False
      in if \<not> exact \<and> index > 0 then index - 1 else index)"

definition searchPage_index :: "bytes \<Rightarrow> tpage \<Rightarrow> nat" where
  "searchPage_index key p =
     (let (index, exact) =
            SearchS (unat (pcount p))
              (\<lambda>i exact. let ret = Compare (bkey (as_branch (ptr p) i)) key
                          in (ret \<noteq> - 1, if ret = 0 then True else exact))
              False
      in if \<not> exact \<and> index > 0 then index - 1 else index)"

text \<open>
  \<^verbatim>\<open>search\<close>, with the bodies of \<^verbatim>\<open>searchNode\<close> and \<^verbatim>\<open>searchPage\<close> in place of the calls (the
  three functions are mutually recursive); \<open>searchNode\<close> and \<open>searchPage\<close> are defined from
  it below, and \<open>search_calls\<close> shows that \<open>search\<close> is the source's function.
  \<^verbatim>\<open>n.inodes[index]\<close> panics on a node without inodes; \<^verbatim>\<open>p.branchPageElements()\<close> is \<^verbatim>\<open>nil\<close>
  for a page with count 0, and indexing it panics.
\<close>

partial_function (option) search :: "Cursor \<Rightarrow> bytes \<Rightarrow> pgid \<Rightarrow> (panic + Cursor) option" where
  "search c key pgid =
     (case pageNode (bucket c) pgid of
        (p, n) \<Rightarrow>
          (case (case p of
                   None \<Rightarrow> None
                 | Some pg \<Rightarrow>
                     if flags pg AND (branchPageFlag OR leafPageFlag) = 0
                     then Some (InvalidPageType (pid pg) (flags pg)) else None) of
             Some e \<Rightarrow> Some (Inl e)
           | None \<Rightarrow>
               (let e = \<lparr>page = p, node = n, index = 0\<rparr>;
                    c = c\<lparr>stack := stack c @ [e]\<rparr>
                in case ref_isLeaf e of
                     Inl er \<Rightarrow> Some (Inl er)
                   | Inr leaf \<Rightarrow>
                       if leaf then Some (nsearch c key)
                       else
                         (case n of
                            Some nd \<Rightarrow>
                              (let index = searchNode_index key nd in
                               case set_top_index c (int index) of
                                 Inl er \<Rightarrow> Some (Inl er)
                               | Inr c \<Rightarrow>
                                   if length (inodes nd) \<le> index then Some (Inl IndexOutOfRange)
                                   else search c key (ipgid (inodes nd ! index)))
                          | None \<Rightarrow>
                              (case p of
                                 None \<Rightarrow> Some (Inl NilDereference)
                               | Some pg \<Rightarrow>
                                   (let index = searchPage_index key pg in
                                    case set_top_index c (int index) of
                                      Inl er \<Rightarrow> Some (Inl er)
                                    | Inr c \<Rightarrow>
                                        if pcount pg = 0 then Some (Inl IndexOutOfRange)
                                        else search c key (bpgid (as_branch (ptr pg) index))))))))"

definition searchNode :: "Cursor \<Rightarrow> bytes \<Rightarrow> node \<Rightarrow> (panic + Cursor) option" where
  "searchNode c key n =
     (let index = searchNode_index key n in
      case set_top_index c (int index) of
        Inl er \<Rightarrow> Some (Inl er)
      | Inr c \<Rightarrow>
          if length (inodes n) \<le> index then Some (Inl IndexOutOfRange)
          else search c key (ipgid (inodes n ! index)))"

definition searchPage :: "Cursor \<Rightarrow> bytes \<Rightarrow> tpage \<Rightarrow> (panic + Cursor) option" where
  "searchPage c key p =
     (let index = searchPage_index key p in
      case set_top_index c (int index) of
        Inl er \<Rightarrow> Some (Inl er)
      | Inr c \<Rightarrow>
          if pcount p = 0 then Some (Inl IndexOutOfRange)
          else search c key (bpgid (as_branch (ptr p) index)))"

subsection \<open>The exported operations\<close>

text \<open>\<^verbatim>\<open>_assert(c.bucket.tx.db != nil, "tx closed")\<close>.\<close>

definition assert_open :: "Cursor \<Rightarrow> panic option" where
  "assert_open c = (if tx_db (bucket c) then None else Some (AssertionFailed ''tx closed''))"

text \<open>What the exported operations return for an element: the value is \<^verbatim>\<open>nil\<close> for a
  sub-bucket (\<^verbatim>\<open>flags & bucketLeafFlag != 0\<close>).\<close>

definition key_value_of :: "kv \<Rightarrow> bytes option \<times> bytes option" where
  "key_value_of res =
     (case res of (k, v, fl) \<Rightarrow> if fl AND bucketLeafFlag \<noteq> 0 then (k, None) else (k, v))"

definition First :: "Cursor \<Rightarrow> (panic + Cursor \<times> bytes option \<times> bytes option) option" where
  "First c =
     (case assert_open c of
        Some e \<Rightarrow> Some (Inl e)
      | None \<Rightarrow>
          (case pageNode (bucket c) (root (bucket c)) of
             (p, n) \<Rightarrow>
               (case first (c\<lparr>stack := [] @ [\<lparr>page = p, node = n, index = 0\<rparr>]\<rparr>) of
                  None \<Rightarrow> None
                | Some (Inl e) \<Rightarrow> Some (Inl e)
                | Some (Inr c) \<Rightarrow>
                    (case top c of
                       Inl e \<Rightarrow> Some (Inl e)
                     | Inr ref \<Rightarrow>
                         (case ref_count ref of
                            Inl e \<Rightarrow> Some (Inl e)
                          | Inr n \<Rightarrow>
                              (case (if n = 0
                                     then (case next_elem c of
                                             None \<Rightarrow> None
                                           | Some (Inl e) \<Rightarrow> Some (Inl e)
                                           | Some (Inr (c', _)) \<Rightarrow> Some (Inr c'))
                                     else Some (Inr c)) of
                                 None \<Rightarrow> None
                               | Some (Inl e) \<Rightarrow> Some (Inl e)
                               | Some (Inr c) \<Rightarrow>
                                   (case keyValue c of
                                      Inl e \<Rightarrow> Some (Inl e)
                                    | Inr res \<Rightarrow> Some (Inr (c, key_value_of res)))))))))"

definition Next :: "Cursor \<Rightarrow> (panic + Cursor \<times> bytes option \<times> bytes option) option" where
  "Next c =
     (case assert_open c of
        Some e \<Rightarrow> Some (Inl e)
      | None \<Rightarrow>
          (case next_elem c of
             None \<Rightarrow> None
           | Some (Inl e) \<Rightarrow> Some (Inl e)
           | Some (Inr (c, res)) \<Rightarrow> Some (Inr (c, key_value_of res))))"

text \<open>\<^verbatim>\<open>Cursor.seek\<close>.\<close>

definition seek :: "Cursor \<Rightarrow> bytes \<Rightarrow> (panic + Cursor \<times> kv) option" where
  "seek c sk =
     (case assert_open c of
        Some e \<Rightarrow> Some (Inl e)
      | None \<Rightarrow>
          (case search (c\<lparr>stack := []\<rparr>) sk (root (bucket c)) of
             None \<Rightarrow> None
           | Some (Inl e) \<Rightarrow> Some (Inl e)
           | Some (Inr c) \<Rightarrow>
               (case top c of
                  Inl e \<Rightarrow> Some (Inl e)
                | Inr ref \<Rightarrow>
                    (case ref_count ref of
                       Inl e \<Rightarrow> Some (Inl e)
                     | Inr n \<Rightarrow>
                         if index ref \<ge> n then Some (Inr (c, (None, None, 0)))
                         else
                           (case keyValue c of
                              Inl e \<Rightarrow> Some (Inl e)
                            | Inr res \<Rightarrow> Some (Inr (c, res)))))))"

text \<open>\<^verbatim>\<open>Cursor.Seek\<close>: a \<^verbatim>\<open>nil\<close> key gives \<open>(nil, nil)\<close>.\<close>

definition Seek :: "Cursor \<Rightarrow> bytes \<Rightarrow> (panic + Cursor \<times> bytes option \<times> bytes option) option" where
  "Seek c sk =
     (case seek c sk of
        None \<Rightarrow> None
      | Some (Inl e) \<Rightarrow> Some (Inl e)
      | Some (Inr (c, res)) \<Rightarrow>
          (case top c of
             Inl e \<Rightarrow> Some (Inl e)
           | Inr ref \<Rightarrow>
               (case ref_count ref of
                  Inl e \<Rightarrow> Some (Inl e)
                | Inr n \<Rightarrow>
                    (case (if index ref \<ge> n then next_elem c else Some (Inr (c, res))) of
                       None \<Rightarrow> None
                     | Some (Inl e) \<Rightarrow> Some (Inl e)
                     | Some (Inr (c, (k, v, fl))) \<Rightarrow>
                         if k = None then Some (Inr (c, (None, None)))
                         else Some (Inr (c, key_value_of (k, v, fl)))))))"

subsection \<open>What the branch search is to compute\<close>

text \<open>
  The specification of the index chosen on a branch, over the list \<open>ks\<close> of the keys of
  the branch: the leftmost index whose key is not below the search key (the number of
  keys when there is none), taken back by one when the match is not exact and the index
  is positive.
\<close>

definition leftmost_ge :: "bytes list \<Rightarrow> bytes \<Rightarrow> nat" where
  "leftmost_ge ks key = length (takeWhile (\<lambda>k. k < key) ks)"

definition branch_index_spec :: "bytes list \<Rightarrow> bytes \<Rightarrow> nat" where
  "branch_index_spec ks key =
     (let l = leftmost_ge ks key
      in if 0 < l \<and> \<not> (l < length ks \<and> ks ! l = key) then l - 1 else l)"

text \<open>\<open>i\<close> is the rightmost index whose key is at most the search key, and 0 when every
  key is above the search key.\<close>

definition rightmost_le :: "bytes list \<Rightarrow> bytes \<Rightarrow> nat \<Rightarrow> bool" where
  "rightmost_le ks key i \<longleftrightarrow>
     i < length ks \<and> (\<forall>j < length ks. ks ! j \<le> key \<longrightarrow> j \<le> i) \<and> (ks ! i \<le> key \<or> i = 0)"

definition node_keys :: "node \<Rightarrow> bytes list" where
  "node_keys n = map ikey (inodes n)"

definition page_keys :: "tpage \<Rightarrow> bytes list" where
  "page_keys p = map (\<lambda>i. bkey (as_branch (ptr p) i)) [0..<unat (pcount p)]"


subsection \<open>The comparison and the order on keys\<close>

lemma Compare_less: "Compare a b = - 1 \<longleftrightarrow> a < b"
  by (induction a b rule: Compare.induct) (auto simp: Cons_less_Cons)

lemma Compare_eq: "Compare a b = 0 \<longleftrightarrow> a = b"
  by (induction a b rule: Compare.induct) auto

lemma Compare_ge: "Compare a b \<noteq> - 1 \<longleftrightarrow> b \<le> a"
  by (simp add: Compare_less not_less)

subsection \<open>The search with the captured flag\<close>

lemma search_loop_st_stop: "\<not> i < j \<Longrightarrow> search_loop_st f i j s = (i, s)"
  by (subst search_loop_st.simps) simp

lemma search_loop_st_left:
  "i < j \<Longrightarrow> \<not> fst (f ((i + j) div 2) s) \<Longrightarrow>
   search_loop_st f i j s = search_loop_st f ((i + j) div 2 + 1) j (snd (f ((i + j) div 2) s))"
  by (subst search_loop_st.simps) (cases "f ((i + j) div 2) s", simp add: Let_def)

lemma search_loop_st_right:
  "i < j \<Longrightarrow> fst (f ((i + j) div 2) s) \<Longrightarrow>
   search_loop_st f i j s = search_loop_st f i ((i + j) div 2) (snd (f ((i + j) div 2) s))"
  by (subst search_loop_st.simps) (cases "f ((i + j) div 2) s", simp add: Let_def)

text \<open>
  The closure of \<^verbatim>\<open>searchNode\<close> and \<^verbatim>\<open>searchPage\<close> over keys \<open>k 0, \<dots>, k (n - 1)\<close>: the
  flag is set exactly when the index found holds the search key.
\<close>

definition probe :: "(nat \<Rightarrow> bytes) \<Rightarrow> bytes \<Rightarrow> nat \<Rightarrow> bool \<Rightarrow> bool \<times> bool" where
  "probe k key = (\<lambda>i exact. let ret = Compare (k i) key in (ret \<noteq> - 1, if ret = 0 then True else exact))"

lemma probe_simps:
  "fst (probe k key i s) = (key \<le> k i)"
  "snd (probe k key i s) = (k i = key \<or> s)"
  by (auto simp: probe_def Let_def Compare_ge Compare_eq)

lemma search_loop_st_probe:
  assumes "\<And>a b. a < b \<Longrightarrow> b < n \<Longrightarrow> k a < k b"
    and "i \<le> j" and "j \<le> n" and "s \<longleftrightarrow> (j < n \<and> k j = key)"
  shows "search_loop_st (probe k key) i j s =
           (search_loop (\<lambda>h. key \<le> k h) i j,
            search_loop (\<lambda>h. key \<le> k h) i j < n \<and> k (search_loop (\<lambda>h. key \<le> k h) i j) = key)"
  using assms(2-)
proof (induction "probe k key" i j s rule: search_loop_st.induct)
  case (1 i j s)
  note IH = "1.hyps"
  show ?case
  proof (cases "i < j")
    case False
    with "1.prems" show ?thesis
      by (simp add: search_loop_st_stop search_loop_stop)
  next
    case True
    let ?h = "(i + j) div 2"
    from True have h: "i \<le> ?h" "?h < j" by auto
    have pe: "(fst (probe k key ?h s), snd (probe k key ?h s)) = probe k key ?h s" by simp
    show ?thesis
    proof (cases "key \<le> k ?h")
      case ge: True
      have flag: "(k ?h = key \<or> s) \<longleftrightarrow> (?h < n \<and> k ?h = key)"
      proof (cases "k ?h = key")
        case True
        with h "1.prems" show ?thesis by simp
      next
        case False
        with ge have "key < k ?h" by simp
        moreover have "j < n \<Longrightarrow> k ?h < k j" using assms(1) [of ?h j] h by simp
        ultimately have "\<not> s" using "1.prems"(3) by auto
        with False show ?thesis by simp
      qed
      have "search_loop_st (probe k key) i ?h (snd (probe k key ?h s)) =
              (search_loop (\<lambda>h. key \<le> k h) i ?h,
               search_loop (\<lambda>h. key \<le> k h) i ?h < n \<and> k (search_loop (\<lambda>h. key \<le> k h) i ?h) = key)"
        using "1.hyps"(2) [OF True refl refl pe]
          ge h flag "1.prems"
        by (simp add: probe_simps)
      with True ge show ?thesis
        by (simp add: search_loop_st_right search_loop_right probe_simps)
    next
      case lt: False
      then have ne: "k ?h \<noteq> key" by auto
      have "search_loop_st (probe k key) (?h + 1) j (snd (probe k key ?h s)) =
              (search_loop (\<lambda>h. key \<le> k h) (?h + 1) j,
               search_loop (\<lambda>h. key \<le> k h) (?h + 1) j < n \<and> k (search_loop (\<lambda>h. key \<le> k h) (?h + 1) j) = key)"
        using "1.hyps"(1) [OF True refl refl pe]
          lt ne h "1.prems"
        by (simp add: probe_simps)
      with True lt show ?thesis
        by (simp add: search_loop_st_left search_loop_left probe_simps)
    qed
  qed
qed

lemma SearchS_probe:
  assumes "\<And>a b. a < b \<Longrightarrow> b < n \<Longrightarrow> k a < k b"
  shows "SearchS n (probe k key) False =
           (Search n (\<lambda>h. key \<le> k h),
            Search n (\<lambda>h. key \<le> k h) < n \<and> k (Search n (\<lambda>h. key \<le> k h)) = key)"
  unfolding SearchS_def Search_def
  by (rule search_loop_st_probe [OF assms]) auto


subsection \<open>The index on a branch\<close>

lemma sorted_keys_nth: "sorted_wrt (<) ks \<Longrightarrow> a < b \<Longrightarrow> b < length ks \<Longrightarrow> ks ! a < ks ! b"
  for ks :: "bytes list"
  by (simp add: sorted_wrt_iff_nth_less)

lemma sorted_upt_keys:
  "sorted_wrt (<) (map k [0..<n]) \<Longrightarrow> a < b \<Longrightarrow> b < n \<Longrightarrow> k a < k b"
  for k :: "nat \<Rightarrow> bytes"
  using sorted_keys_nth [of "map k [0..<n]" a b] by simp

lemma Search_leftmost_ge:
  assumes "sorted_wrt (<) (map k [0..<n])"
  shows "Search n (\<lambda>h. key \<le> k h) = leftmost_ge (map k [0..<n]) key"
proof -
  let ?l = "Search n (\<lambda>h. key \<le> k h)"
  have le: "?l \<le> n" by (rule Search_le)
  have below: "\<forall>i < ?l. \<not> key \<le> k i"
  proof (rule Search_mono_least)
    fix i j assume "i \<le> j" "j < n" "key \<le> k i"
    then show "key \<le> k j"
      using sorted_upt_keys [OF assms, of i j] by (cases "i = j") auto
  qed
  have "takeWhile (\<lambda>x. x < key) (map k [0..<n]) = take ?l (map k [0..<n])"
  proof (rule takeWhile_eq_take_P_nth)
    fix i assume "i < ?l" "i < length (map k [0..<n])"
    with below show "map k [0..<n] ! i < key" by auto
  next
    assume "?l < length (map k [0..<n])"
    then have l: "?l < n" by simp
    then have "key \<le> k ?l" by (rule Search_hit)
    with l show "\<not> map k [0..<n] ! ?l < key" by simp
  qed
  with le show ?thesis by (simp add: leftmost_ge_def)
qed

lemma branch_index_SearchS:
  assumes "sorted_wrt (<) (map k [0..<n])"
  shows "(let (index, exact) = SearchS n (probe k key) False
          in if \<not> exact \<and> index > 0 then index - 1 else index) =
         branch_index_spec (map k [0..<n]) key"
proof -
  have l: "leftmost_ge (map k [0..<n]) key < n \<Longrightarrow>
           map k [0..<n] ! leftmost_ge (map k [0..<n]) key = k (leftmost_ge (map k [0..<n]) key)"
    by simp
  have "SearchS n (probe k key) False =
          (leftmost_ge (map k [0..<n]) key,
           leftmost_ge (map k [0..<n]) key < n \<and> k (leftmost_ge (map k [0..<n]) key) = key)"
    using SearchS_probe [where n = n and k = k and key = key] sorted_upt_keys [OF assms]
    by (simp add: Search_leftmost_ge [OF assms])
  then show ?thesis using l by (auto simp: branch_index_spec_def Let_def)
qed

lemma leftmost_ge_props:
  assumes "sorted_wrt (<) ks"
  shows "leftmost_ge ks key \<le> length ks"
    and "\<And>i. i < leftmost_ge ks key \<Longrightarrow> ks ! i < key"
    and "\<And>i. leftmost_ge ks key \<le> i \<Longrightarrow> i < length ks \<Longrightarrow> key \<le> ks ! i"
proof -
  let ?l = "leftmost_ge ks key"
  show le: "?l \<le> length ks" by (simp add: leftmost_ge_def length_takeWhile_le)
  show below: "ks ! i < key" if "i < ?l" for i
    using that nth_length_takeWhile takeWhile_nth [of i "\<lambda>k. k < key" ks]
      nth_mem [of i "takeWhile (\<lambda>k. k < key) ks"] set_takeWhileD [of "ks ! i" "\<lambda>k. k < key" ks]
    by (simp add: leftmost_ge_def)
  show "key \<le> ks ! i" if "?l \<le> i" "i < length ks" for i
  proof -
    from that have l: "?l < length ks" by simp
    then have "\<not> ks ! ?l < key"
      unfolding leftmost_ge_def by (rule nth_length_takeWhile)
    then have "key \<le> ks ! ?l" by simp
    with that sorted_keys_nth [OF assms, of ?l i] show ?thesis
      by (cases "?l = i") auto
  qed
qed

lemma branch_index_rightmost:
  assumes "sorted_wrt (<) ks" and "ks \<noteq> []"
  shows "rightmost_le ks key (branch_index_spec ks key)"
proof -
  let ?l = "leftmost_ge ks key"
  note P = leftmost_ge_props [OF assms(1), where key = key]
  show ?thesis
  proof (cases "0 < ?l \<and> \<not> (?l < length ks \<and> ks ! ?l = key)")
    case True
    then have idx: "branch_index_spec ks key = ?l - 1" by (auto simp: branch_index_spec_def Let_def)
    have "ks ! j \<le> key \<Longrightarrow> j \<le> ?l - 1" if "j < length ks" for j
    proof (rule ccontr)
      assume a: "ks ! j \<le> key" "\<not> j \<le> ?l - 1"
      then have "?l \<le> j" using True by simp
      then have "key \<le> ks ! j" by (rule P(3)) fact
      with a have e: "ks ! j = key" by simp
      have "?l < length ks" using \<open>?l \<le> j\<close> that by simp
      moreover have "ks ! ?l = key"
      proof (cases "?l = j")
        case True with e show ?thesis by simp
      next
        case False
        with \<open>?l \<le> j\<close> have "ks ! ?l < ks ! j" using sorted_keys_nth [OF assms(1), of ?l j] that by simp
        moreover have "key \<le> ks ! ?l" using P(3) [of ?l] \<open>?l < length ks\<close> by simp
        ultimately show ?thesis using e by simp
      qed
      ultimately show False using True by simp
    qed
    moreover have "ks ! (?l - 1) \<le> key" using P(2) [of "?l - 1"] True by simp
    moreover have "?l - 1 < length ks" using P(1) True by arith
    ultimately show ?thesis by (simp add: rightmost_le_def idx)
  next
    case False
    then have idx: "branch_index_spec ks key = ?l" by (auto simp: branch_index_spec_def Let_def)
    from False consider "?l = 0" | "?l < length ks" "ks ! ?l = key" by auto
    then show ?thesis
    proof cases
      case 1
      have "j \<le> 0" if "j < length ks" "ks ! j \<le> key" for j
      proof (rule ccontr)
        assume "\<not> j \<le> 0"
        then have "0 < j" by simp
        with sorted_keys_nth [OF assms(1), of 0 j] that have "ks ! 0 < ks ! j" by simp
        moreover have "key \<le> ks ! 0" using P(3) [of 0] 1 assms(2) by simp
        ultimately show False using that by simp
      qed
      with 1 assms(2) show ?thesis by (simp add: rightmost_le_def idx)
    next
      case 2
      have "j \<le> ?l" if "j < length ks" "ks ! j \<le> key" for j
      proof (rule ccontr)
        assume "\<not> j \<le> ?l"
        then have "?l < j" by simp
        with sorted_keys_nth [OF assms(1), of ?l j] that 2 show False by simp
      qed
      with 2 show ?thesis by (simp add: rightmost_le_def idx)
    qed
  qed
qed

lemma node_keys_upt: "node_keys n = map (\<lambda>i. ikey (inodes n ! i)) [0..<length (inodes n)]"
proof -
  have "map (\<lambda>i. ikey (inodes n ! i)) [0..<length (inodes n)] =
        map ikey (map ((!) (inodes n)) [0..<length (inodes n)])"
    by (simp only: map_map o_def)
  then show ?thesis by (simp only: map_nth node_keys_def)
qed

lemma searchNode_index_spec:
  assumes "sorted_wrt (<) (node_keys n)"
  shows "searchNode_index key n = branch_index_spec (node_keys n) key"
  using branch_index_SearchS [where k = "\<lambda>i. ikey (inodes n ! i)" and n = "length (inodes n)" and key = key]
    assms
  unfolding node_keys_upt searchNode_index_def probe_def by simp

lemma searchPage_index_spec:
  assumes "sorted_wrt (<) (page_keys p)"
  shows "searchPage_index key p = branch_index_spec (page_keys p) key"
  using branch_index_SearchS [where k = "\<lambda>i. bkey (as_branch (ptr p) i)" and n = "unat (pcount p)" and key = key]
    assms
  unfolding page_keys_def searchPage_index_def probe_def by simp

lemma searchNode_step:
  assumes "stack c \<noteq> []" and "searchNode_index key n < length (inodes n)"
  shows "searchNode c key n =
           search (c\<lparr>stack := butlast (stack c) @ [(last (stack c))\<lparr>index := int (searchNode_index key n)\<rparr>]\<rparr>)
             key (ipgid (inodes n ! searchNode_index key n))"
  using assms by (simp add: searchNode_def set_top_index_def Let_def)

lemma searchPage_step:
  assumes "stack c \<noteq> []" and "pcount p \<noteq> 0"
  shows "searchPage c key p =
           search (c\<lparr>stack := butlast (stack c) @ [(last (stack c))\<lparr>index := int (searchPage_index key p)\<rparr>]\<rparr>)
             key (bpgid (as_branch (ptr p) (searchPage_index key p)))"
  using assms by (simp add: searchPage_def set_top_index_def Let_def)

lemma page_keys_nonempty: "pcount p \<noteq> 0 \<Longrightarrow> page_keys p \<noteq> []"
  by (simp add: page_keys_def unat_gt_0)

lemma searchNode_empty:
  assumes "stack c \<noteq> []" and "inodes n = []"
  shows "searchNode c key n = Some (Inl IndexOutOfRange)"
  using assms by (simp add: searchNode_def set_top_index_def Let_def)

lemma searchPage_empty:
  assumes "stack c \<noteq> []" and "pcount p = 0"
  shows "searchPage c key p = Some (Inl IndexOutOfRange)"
  using assms by (simp add: searchPage_def set_top_index_def Let_def)

text \<open>
  \<^bold>\<open>C5\<close> (\<^verbatim>\<open>Cursor.searchNode\<close>, \<^verbatim>\<open>Cursor.searchPage\<close>). On a branch frame whose keys are strictly
  ascending, \<open>searchNode\<close> (for a node) and \<open>searchPage\<close> (for a page) compute the leftmost
  index whose key is not below the search key, less one when the match is not exact and
  the index is positive (\<open>branch_index_spec\<close>). On a branch that has elements this is the
  rightmost element whose key is at most the search key, and 0 when every key is above
  the search key (\<open>rightmost_le\<close>); they set the index of the frame on top of the stack to
  it and go on with \<open>search\<close> on the child page id of that element. A branch without
  elements has no element to choose: indexing it panics.
\<close>

theorem search_branch_rightmost:
  assumes "stack c \<noteq> []"
  shows "(sorted_wrt (<) (node_keys n) \<longrightarrow>
            searchNode_index key n = branch_index_spec (node_keys n) key \<and>
            (inodes n \<noteq> [] \<longrightarrow>
               rightmost_le (node_keys n) key (searchNode_index key n) \<and>
               searchNode c key n =
                 search (c\<lparr>stack := butlast (stack c) @
                                       [(last (stack c))\<lparr>index := int (searchNode_index key n)\<rparr>]\<rparr>)
                   key (ipgid (inodes n ! searchNode_index key n))) \<and>
            (inodes n = [] \<longrightarrow> searchNode c key n = Some (Inl IndexOutOfRange))) \<and>
         (sorted_wrt (<) (page_keys p) \<longrightarrow>
            searchPage_index key p = branch_index_spec (page_keys p) key \<and>
            (pcount p \<noteq> 0 \<longrightarrow>
               rightmost_le (page_keys p) key (searchPage_index key p) \<and>
               searchPage c key p =
                 search (c\<lparr>stack := butlast (stack c) @
                                       [(last (stack c))\<lparr>index := int (searchPage_index key p)\<rparr>]\<rparr>)
                   key (bpgid (as_branch (ptr p) (searchPage_index key p)))) \<and>
            (pcount p = 0 \<longrightarrow> searchPage c key p = Some (Inl IndexOutOfRange)))"
proof (intro conjI impI)
  assume a: "sorted_wrt (<) (node_keys n)"
  then show spec: "searchNode_index key n = branch_index_spec (node_keys n) key"
    by (rule searchNode_index_spec)
  {
    assume ne: "inodes n \<noteq> []"
    then have "node_keys n \<noteq> []" by (simp add: node_keys_def)
    with a show right: "rightmost_le (node_keys n) key (searchNode_index key n)"
      by (simp add: spec branch_index_rightmost)
    then have "searchNode_index key n < length (inodes n)"
      by (simp add: rightmost_le_def node_keys_def)
    with assms show "searchNode c key n =
        search (c\<lparr>stack := butlast (stack c) @ [(last (stack c))\<lparr>index := int (searchNode_index key n)\<rparr>]\<rparr>)
          key (ipgid (inodes n ! searchNode_index key n))"
      by (rule searchNode_step)
  }
  {
    assume "inodes n = []"
    with assms show "searchNode c key n = Some (Inl IndexOutOfRange)" by (rule searchNode_empty)
  }
next
  assume a: "sorted_wrt (<) (page_keys p)"
  then show spec: "searchPage_index key p = branch_index_spec (page_keys p) key"
    by (rule searchPage_index_spec)
  {
    assume ne: "pcount p \<noteq> 0"
    then have "page_keys p \<noteq> []" by (rule page_keys_nonempty)
    with a show "rightmost_le (page_keys p) key (searchPage_index key p)"
      by (simp add: spec branch_index_rightmost)
    from assms ne show "searchPage c key p =
        search (c\<lparr>stack := butlast (stack c) @ [(last (stack c))\<lparr>index := int (searchPage_index key p)\<rparr>]\<rparr>)
          key (bpgid (as_branch (ptr p) (searchPage_index key p)))"
      by (rule searchPage_step)
  }
  {
    assume "pcount p = 0"
    with assms show "searchPage c key p = Some (Inl IndexOutOfRange)" by (rule searchPage_empty)
  }
qed

text \<open>A branch with the keys \<open>a\<close>, \<open>c\<close>, \<open>e\<close> over the pages 4, 5, 6, as a node and as a page,
  searched for \<open>d\<close>: the index is 1, the element with the key \<open>c\<close>, and the search goes on in
  page 5.\<close>

definition branch_ace :: node where
  "branch_ace = \<lparr>isLeaf = False, inodes =
     [\<lparr>iflags = 0, ipgid = 4, ikey = [97], ivalue = []\<rparr>,
      \<lparr>iflags = 0, ipgid = 5, ikey = [99], ivalue = []\<rparr>,
      \<lparr>iflags = 0, ipgid = 6, ikey = [101], ivalue = []\<rparr>]\<rparr>"

definition page_ace :: tpage where
  "page_ace = \<lparr>pid = 3, flags = branchPageFlag, pcount = 3, overflow = 0,
     ptr = \<lparr>as_branch = (\<lambda>i. if i = 0 then \<lparr>bkey = [97], bpgid = 4\<rparr>
                              else if i = 1 then \<lparr>bkey = [99], bpgid = 5\<rparr>
                              else \<lparr>bkey = [101], bpgid = 6\<rparr>),
            as_leaf = (\<lambda>i. \<lparr>lflags = 0, lkey = [], lvalue = []\<rparr>)\<rparr>\<rparr>"

definition bucket_ace :: bucket where
  "bucket_ace = \<lparr>root = 3,
     pageNode = (\<lambda>pg. if pg = 3 then (None, Some branch_ace) else (None, None)),
     tx_db = True\<rparr>"

lemma node_keys_ace: "node_keys branch_ace = [[97], [99], [101]]"
  by (simp add: node_keys_def branch_ace_def)

lemma upt_3: "[0..<3] = [0, 1, 2]"
  by (simp add: numeral_3_eq_3)

lemma page_keys_ace: "page_keys page_ace = [[97], [99], [101]]"
  by (simp add: page_keys_def page_ace_def upt_3)

lemma branch_index_ace: "branch_index_spec [[97], [99], [101]] [100] = 1"
  by (simp add: branch_index_spec_def leftmost_ge_def)

theorem search_branch_rightmost_witness:
  "searchNode_index [100] branch_ace = 1 \<and>
   searchNode \<lparr>bucket = bucket_ace, stack = [\<lparr>page = None, node = Some branch_ace, index = 0\<rparr>]\<rparr> [100] branch_ace =
     search \<lparr>bucket = bucket_ace, stack = [\<lparr>page = None, node = Some branch_ace, index = 1\<rparr>]\<rparr> [100] 5 \<and>
   searchPage_index [100] page_ace = 1 \<and>
   searchPage \<lparr>bucket = bucket_ace, stack = [\<lparr>page = Some page_ace, node = None, index = 0\<rparr>]\<rparr> [100] page_ace =
     search \<lparr>bucket = bucket_ace, stack = [\<lparr>page = Some page_ace, node = None, index = 1\<rparr>]\<rparr> [100] 5"
proof -
  have n: "sorted_wrt (<) (node_keys branch_ace)" "inodes branch_ace \<noteq> []"
    by (simp add: node_keys_ace) (simp add: branch_ace_def)
  have p: "sorted_wrt (<) (page_keys page_ace)" "pcount page_ace \<noteq> 0"
    by (simp add: page_keys_ace) (simp add: page_ace_def)
  have kids: "ipgid (inodes branch_ace ! Suc 0) = 5" "bpgid (as_branch (ptr page_ace) (Suc 0)) = 5"
    by (simp_all add: branch_ace_def page_ace_def)
  let ?cn = "\<lparr>bucket = bucket_ace, stack = [\<lparr>page = None, node = Some branch_ace, index = 0\<rparr>]\<rparr>"
  let ?cp = "\<lparr>bucket = bucket_ace, stack = [\<lparr>page = Some page_ace, node = None, index = 0\<rparr>]\<rparr>"
  have nidx: "searchNode_index [100] branch_ace = Suc 0"
    using search_branch_rightmost [of ?cn branch_ace "[100]" page_ace] n
    by (simp add: node_keys_ace branch_index_ace)
  have pidx: "searchPage_index [100] page_ace = Suc 0"
    using search_branch_rightmost [of ?cp branch_ace "[100]" page_ace] p
    by (simp add: page_keys_ace branch_index_ace)
  have "searchNode ?cn [100] branch_ace =
          search \<lparr>bucket = bucket_ace, stack = [\<lparr>page = None, node = Some branch_ace, index = 1\<rparr>]\<rparr> [100] 5"
    using search_branch_rightmost [of ?cn branch_ace "[100]" page_ace] n
    by (simp add: nidx kids)
  moreover have "searchPage ?cp [100] page_ace =
          search \<lparr>bucket = bucket_ace, stack = [\<lparr>page = Some page_ace, node = None, index = 1\<rparr>]\<rparr> [100] 5"
    using search_branch_rightmost [of ?cp branch_ace "[100]" page_ace] p
    by (simp add: pidx kids)
  ultimately show ?thesis using nidx pidx by simp
qed

text \<open>\<open>search\<close> in the shape of the source, with the calls of \<open>searchNode\<close> and \<open>searchPage\<close>.\<close>

lemma search_calls:
  "search c key pgid =
     (case pageNode (bucket c) pgid of
        (p, n) \<Rightarrow>
          (case (case p of
                   None \<Rightarrow> None
                 | Some pg \<Rightarrow>
                     if flags pg AND (branchPageFlag OR leafPageFlag) = 0
                     then Some (InvalidPageType (pid pg) (flags pg)) else None) of
             Some e \<Rightarrow> Some (Inl e)
           | None \<Rightarrow>
               (let e = \<lparr>page = p, node = n, index = 0\<rparr>;
                    c = c\<lparr>stack := stack c @ [e]\<rparr>
                in case ref_isLeaf e of
                     Inl er \<Rightarrow> Some (Inl er)
                   | Inr leaf \<Rightarrow>
                       if leaf then Some (nsearch c key)
                       else
                         (case n of
                            Some nd \<Rightarrow> searchNode c key nd
                          | None \<Rightarrow>
                              (case p of
                                 None \<Rightarrow> Some (Inl NilDereference)
                               | Some pg \<Rightarrow> searchPage c key pg)))))"
  unfolding searchNode_def searchPage_def by (rule search.simps)

section \<open>The B+tree behind a cursor\<close>

subsection \<open>What a frame shows\<close>

text \<open>
  The frame that the cursor pushes for a page id, and what \<open>isLeaf\<close>, \<open>count\<close>, the child
  lookup and \<open>keyValue\<close> read from the frame of a page id: the node when there is one, else
  the page.
\<close>

definition frame :: "bucket \<Rightarrow> pgid \<Rightarrow> int \<Rightarrow> elemRef" where
  "frame b pg i = \<lparr>page = fst (pageNode b pg), node = snd (pageNode b pg), index = i\<rparr>"

definition cnt :: "bucket \<Rightarrow> pgid \<Rightarrow> nat" where
  "cnt b pg =
     (case snd (pageNode b pg) of
        Some n \<Rightarrow> length (inodes n)
      | None \<Rightarrow> (case fst (pageNode b pg) of Some p \<Rightarrow> unat (pcount p) | None \<Rightarrow> 0))"

definition child :: "bucket \<Rightarrow> pgid \<Rightarrow> nat \<Rightarrow> pgid" where
  "child b pg i =
     (case snd (pageNode b pg) of
        Some n \<Rightarrow> ipgid (inodes n ! i)
      | None \<Rightarrow> (case fst (pageNode b pg) of Some p \<Rightarrow> bpgid (as_branch (ptr p) i) | None \<Rightarrow> 0))"

definition sep :: "bucket \<Rightarrow> pgid \<Rightarrow> nat \<Rightarrow> bytes" where
  "sep b pg i =
     (case snd (pageNode b pg) of
        Some n \<Rightarrow> ikey (inodes n ! i)
      | None \<Rightarrow> (case fst (pageNode b pg) of Some p \<Rightarrow> bkey (as_branch (ptr p) i) | None \<Rightarrow> []))"

type_synonym item = "bytes \<times> bytes \<times> 32 word"

definition item :: "bucket \<Rightarrow> pgid \<Rightarrow> nat \<Rightarrow> item" where
  "item b pg i =
     (case snd (pageNode b pg) of
        Some n \<Rightarrow> (ikey (inodes n ! i), ivalue (inodes n ! i), iflags (inodes n ! i))
      | None \<Rightarrow>
          (case fst (pageNode b pg) of
             Some p \<Rightarrow> (lkey (as_leaf (ptr p) i), lvalue (as_leaf (ptr p) i), lflags (as_leaf (ptr p) i))
           | None \<Rightarrow> ([], [], 0)))"

text \<open>A page that \<open>search\<close> accepts is a branch or a leaf page.\<close>

definition page_type_ok :: "bucket \<Rightarrow> pgid \<Rightarrow> bool" where
  "page_type_ok b pg =
     (case fst (pageNode b pg) of
        Some p \<Rightarrow> flags p AND (branchPageFlag OR leafPageFlag) \<noteq> 0
      | None \<Rightarrow> True)"

definition leaf_at :: "bucket \<Rightarrow> pgid \<Rightarrow> bool" where
  "leaf_at b pg \<longleftrightarrow> ref_isLeaf (frame b pg 0) = Inr True \<and> page_type_ok b pg"

definition branch_at :: "bucket \<Rightarrow> pgid \<Rightarrow> bool" where
  "branch_at b pg \<longleftrightarrow> ref_isLeaf (frame b pg 0) = Inr False \<and> page_type_ok b pg"

subsection \<open>Well-formed trees\<close>

text \<open>
  \<open>btree b h pg\<close>: the page id \<open>pg\<close> is the root of a tree of height \<open>h\<close> in the store of the
  bucket \<open>b\<close>. All leaves are at depth \<open>h\<close>, every page id on the way resolves to a node or
  to a page of the type of its level, and a branch has at least one child. A leaf may be
  empty (the sources provide for it in \<open>First\<close> and \<open>next\<close>).
\<close>

primrec btree :: "bucket \<Rightarrow> nat \<Rightarrow> pgid \<Rightarrow> bool" where
  "btree b 0 pg = leaf_at b pg"
| "btree b (Suc h) pg =
     (branch_at b pg \<and> 0 < cnt b pg \<and> list_all (\<lambda>i. btree b h (child b pg i)) [0..<cnt b pg])"

text \<open>The elements of the leaves of a tree, from left to right.\<close>

primrec tree_items :: "bucket \<Rightarrow> nat \<Rightarrow> pgid \<Rightarrow> item list" where
  "tree_items b 0 pg = map (item b pg) [0..<cnt b pg]"
| "tree_items b (Suc h) pg = concat (map (\<lambda>i. tree_items b h (child b pg i)) [0..<cnt b pg])"

text \<open>
  \<open>tree_sorted b h pg\<close>: the keys of each leaf and the keys of each branch are strictly
  ascending, and the keys of a branch separate its subtrees: every key under the child
  \<open>i\<close> is below the key of the branch element \<open>i + 1\<close> and, for \<open>i > 0\<close>, not below the key of
  the branch element \<open>i\<close>. (The key of the first branch element is not constrained, no
  search looks at it.)
\<close>

primrec tree_sorted :: "bucket \<Rightarrow> nat \<Rightarrow> pgid \<Rightarrow> bool" where
  "tree_sorted b 0 pg = sorted_wrt (<) (map fst (tree_items b 0 pg))"
| "tree_sorted b (Suc h) pg =
     (sorted_wrt (<) (map (sep b pg) [0..<cnt b pg]) \<and>
      list_all
        (\<lambda>i. tree_sorted b h (child b pg i) \<and>
             list_all
               (\<lambda>k. (0 < i \<longrightarrow> sep b pg i \<le> k) \<and> (i + 1 < cnt b pg \<longrightarrow> k < sep b pg (i + 1)))
               (map fst (tree_items b h (child b pg i))))
        [0..<cnt b pg])"

text \<open>What \<open>Seek\<close> is to return: the first element whose key is not below the search key,
  with the value \<^verbatim>\<open>nil\<close> for a sub-bucket, and \<open>(nil, nil)\<close> when there is none.\<close>

definition returned :: "item \<Rightarrow> bytes option \<times> bytes option" where
  "returned x = (case x of (k, v, fl) \<Rightarrow> (Some k, if fl AND bucketLeafFlag \<noteq> 0 then None else Some v))"

definition seek_spec :: "item list \<Rightarrow> bytes \<Rightarrow> bytes option \<times> bytes option" where
  "seek_spec xs k =
     (case dropWhile (\<lambda>x. fst x < k) xs of [] \<Rightarrow> (None, None) | x # _ \<Rightarrow> returned x)"

subsection \<open>Frames in the code\<close>

lemma frame_simps [simp]:
  "page (frame b pg i) = fst (pageNode b pg)"
  "node (frame b pg i) = snd (pageNode b pg)"
  "index (frame b pg i) = i"
  by (simp_all add: frame_def)

lemma frame_index [simp]: "(frame b pg i)\<lparr>index := j\<rparr> = frame b pg j"
  by (simp add: frame_def)

lemma frame_pair: "(case pageNode b pg of (p, n) \<Rightarrow> f \<lparr>page = p, node = n, index = i\<rparr>) = f (frame b pg i)"
  by (simp add: frame_def split: prod.splits)

lemma isLeaf_frame [simp]:
  "leaf_at b pg \<Longrightarrow> ref_isLeaf (frame b pg i) = Inr True"
  "branch_at b pg \<Longrightarrow> ref_isLeaf (frame b pg i) = Inr False"
  by (simp_all add: leaf_at_def branch_at_def ref_isLeaf_def split: option.splits)

lemma count_frame [simp]:
  "leaf_at b pg \<Longrightarrow> ref_count (frame b pg i) = Inr (int (cnt b pg))"
  "branch_at b pg \<Longrightarrow> ref_count (frame b pg i) = Inr (int (cnt b pg))"
  by (auto simp: leaf_at_def branch_at_def ref_isLeaf_def ref_count_def cnt_def split: option.splits)

lemma uint16_index:
  assumes "0 \<le> i" "i < int (unat (c :: 16 word))"
  shows "unat (word_of_int i :: 16 word) = nat i"
proof -
  have "uint c < 2 ^ 16" using uint_lt2p [of c] by simp
  moreover have "i < uint c" using assms(2) by simp
  ultimately have "nat i < 2 ^ 16" using assms(1) by simp
  then have "unat (of_nat (nat i) :: 16 word) = nat i" by (simp add: unat_of_nat)
  moreover have "(word_of_int i :: 16 word) = of_nat (nat i)" using assms(1) by (rule word_of_int_nat)
  ultimately show ?thesis by (simp only:)
qed

lemma child_pgid_frame:
  assumes "branch_at b pg" "0 \<le> i" "i < int (cnt b pg)"
  shows "child_pgid (frame b pg i) = Inr (child b pg (nat i))"
  using assms
  by (auto simp: child_pgid_def child_def cnt_def branch_at_def ref_isLeaf_def branchPageElement_def
      uint16_index split: option.splits)

lemma top_append [simp]: "top (c\<lparr>stack := pre @ [r]\<rparr>) = Inr r"
  by (simp add: top_def)

lemma keyValue_item:
  assumes "leaf_at b pg" "0 \<le> i" "i < int (cnt b pg)"
  shows "keyValue (c\<lparr>stack := pre @ [frame b pg i]\<rparr>) =
           Inr (case item b pg (nat i) of (k, v, fl) \<Rightarrow> (Some k, Some v, fl))"
  using assms
  by (auto simp: keyValue_def item_def cnt_def leaf_at_def ref_isLeaf_def ref_count_def
      leafPageElement_def uint16_index Let_def split: option.splits)

lemma keyValue_end:
  assumes "leaf_at b pg" "int (cnt b pg) \<le> i"
  shows "keyValue (c\<lparr>stack := pre @ [frame b pg i]\<rparr>) = Inr (None, None, 0)"
  using assms by (simp add: keyValue_def)

lemma frame_inject [simp]: "frame b pg i = frame b pg j \<longleftrightarrow> i = j"
  by (auto simp: frame_def)

subsection \<open>Positions\<close>

text \<open>
  The stack that \<open>first\<close> builds below the frame \<open>frame b pg i\<close> of a tree of height \<open>h\<close>, and
  the stacks that are paths from the root of a tree to a position in a leaf. The index in
  a leaf may be the count of the leaf, the position behind its last element.
\<close>

primrec descend :: "bucket \<Rightarrow> nat \<Rightarrow> pgid \<Rightarrow> int \<Rightarrow> elemRef list" where
  "descend b 0 pg i = [frame b pg i]"
| "descend b (Suc h) pg i = frame b pg i # descend b h (child b pg (nat i)) 0"

primrec path_ok :: "bucket \<Rightarrow> nat \<Rightarrow> pgid \<Rightarrow> elemRef list \<Rightarrow> bool" where
  "path_ok b 0 pg stk = (\<exists>i. stk = [frame b pg i] \<and> 0 \<le> i \<and> i \<le> int (cnt b pg))"
| "path_ok b (Suc h) pg stk =
     (\<exists>i rest. stk = frame b pg i # rest \<and> 0 \<le> i \<and> i < int (cnt b pg) \<and>
        path_ok b h (child b pg (nat i)) rest)"

lemma frame_eq: "pageNode b pg = (p, n) \<Longrightarrow> \<lparr>page = p, node = n, index = i\<rparr> = frame b pg i"
  by (simp add: frame_def)

lemma btree_child: "btree b (Suc h) pg \<Longrightarrow> i < cnt b pg \<Longrightarrow> btree b h (child b pg i)"
  by (simp add: list_all_iff)

lemma btree_cases: "btree b h pg \<Longrightarrow> (h = 0 \<and> leaf_at b pg) \<or> (0 < h \<and> branch_at b pg \<and> 0 < cnt b pg)"
  by (cases h) simp_all

lemma first_descend:
  assumes "btree b h pg" "bucket c = b" "h = 0 \<or> (0 \<le> i \<and> i < int (cnt b pg))"
  shows "first (c\<lparr>stack := pre @ [frame b pg i]\<rparr>) = Some (Inr (c\<lparr>stack := pre @ descend b h pg i\<rparr>))"
  using assms
proof (induction h arbitrary: pg i pre)
  case 0
  then show ?case by (subst first.simps) simp
next
  case (Suc h)
  then have br: "branch_at b pg" and i: "0 \<le> i" "i < int (cnt b pg)" by simp_all
  have kid: "btree b h (child b pg (nat i))" using Suc.prems(1) i by (intro btree_child) simp_all
  have next_ok: "h = 0 \<or> (0 \<le> (0::int) \<and> 0 < int (cnt b (child b pg (nat i))))"
    using btree_cases [OF kid] by auto
  have "first (c\<lparr>stack := pre @ [frame b pg i]\<rparr>) =
          first (c\<lparr>stack := (pre @ [frame b pg i]) @ [frame b (child b pg (nat i)) 0]\<rparr>)"
    using br i Suc.prems(2)
    by (subst first.simps) (simp add: child_pgid_frame frame_eq split: prod.splits)
  also have "\<dots> = Some (Inr (c\<lparr>stack := (pre @ [frame b pg i]) @ descend b h (child b pg (nat i)) 0\<rparr>))"
    using kid Suc.prems(2) next_ok by (rule Suc.IH)
  finally show ?case by simp
qed

text \<open>
  One round of the loop of \<open>next\<close> on a path: the deepest frame that can move on moves on,
  the frames below it are dropped and \<open>first\<close> descends again. \<open>advance\<close> is the path that
  results, \<open>None\<close> when no frame can move.
\<close>

primrec advance :: "bucket \<Rightarrow> nat \<Rightarrow> pgid \<Rightarrow> elemRef list \<Rightarrow> elemRef list option" where
  "advance b 0 pg stk =
     (if index (hd stk) < int (cnt b pg) - 1 then Some [frame b pg (index (hd stk) + 1)] else None)"
| "advance b (Suc h) pg stk =
     (case advance b h (child b pg (nat (index (hd stk)))) (tl stk) of
        Some rest \<Rightarrow> Some (hd stk # rest)
      | None \<Rightarrow>
          if index (hd stk) < int (cnt b pg) - 1
          then Some (descend b (Suc h) pg (index (hd stk) + 1)) else None)"

lemma path_ok_length: "path_ok b h pg stk \<Longrightarrow> length stk = Suc h"
  by (induction h arbitrary: pg stk) auto

lemma move_up_frame:
  assumes "leaf_at b pg \<or> branch_at b pg"
  shows "move_up (pre @ frame b pg i # rest) (Suc (length pre)) =
          (if i < int (cnt b pg) - 1
           then Inr (pre @ frame b pg (i + 1) # rest, int (length pre))
           else move_up (pre @ frame b pg i # rest) (length pre))"
  using assms by (auto simp: nth_append list_update_append)

lemma move_up_none:
  assumes "btree b h pg" "path_ok b h pg stk" "advance b h pg stk = None"
  shows "move_up (pre @ stk) (length pre + length stk) = move_up (pre @ stk) (length pre)"
  using assms
proof (induction h arbitrary: pg stk pre)
  case 0
  then obtain i where stk: "stk = [frame b pg i]" by auto
  from 0 have "\<not> i < int (cnt b pg) - 1" by (simp add: stk split: if_splits)
  with 0 show ?case using move_up_frame [of b pg pre i "[]"] by (simp add: stk)
next
  case (Suc h)
  then obtain i rest where stk: "stk = frame b pg i # rest" and i: "0 \<le> i" "i < int (cnt b pg)"
    and rest: "path_ok b h (child b pg (nat i)) rest" by auto
  have kid: "btree b h (child b pg (nat i))" using Suc.prems(1) i by (intro btree_child) simp_all
  from Suc.prems(3) have none: "advance b h (child b pg (nat i)) rest = None"
    and last: "\<not> i < int (cnt b pg) - 1"
    by (simp_all add: stk split: option.splits if_splits)
  have "move_up ((pre @ [frame b pg i]) @ rest) (length (pre @ [frame b pg i]) + length rest) =
        move_up ((pre @ [frame b pg i]) @ rest) (length (pre @ [frame b pg i]))"
    using kid rest none by (rule Suc.IH)
  then have "move_up (pre @ stk) (length pre + length stk) = move_up (pre @ stk) (Suc (length pre))"
    by (simp add: stk)
  also have "\<dots> = move_up (pre @ stk) (length pre)"
    unfolding stk using move_up_frame [of b pg pre i rest] last Suc.prems(1) by simp
  finally show ?case .
qed

lemma move_up_some:
  assumes "btree b h pg" "path_ok b h pg stk" "advance b h pg stk = Some stk'" "bucket c = b"
  shows "\<exists>stk2 k. move_up (pre @ stk) (length pre + length stk) = Inr (stk2, int k) \<and>
           first (c\<lparr>stack := take (nat (int k + 1)) stk2\<rparr>) = Some (Inr (c\<lparr>stack := pre @ stk'\<rparr>))"
  using assms(1-3)
proof (induction h arbitrary: pg stk pre stk')
  case 0
  then obtain i where stk: "stk = [frame b pg i]" by auto
  from 0 have lt: "i < int (cnt b pg) - 1" and stk': "stk' = [frame b pg (i + 1)]"
    by (simp_all add: stk split: if_splits)
  have "move_up (pre @ stk) (length pre + length stk) = Inr (pre @ [frame b pg (i + 1)], int (length pre))"
    using move_up_frame [of b pg pre i "[]"] 0 lt by (simp add: stk)
  moreover have "first (c\<lparr>stack := pre @ [frame b pg (i + 1)]\<rparr>) =
      Some (Inr (c\<lparr>stack := pre @ descend b 0 pg (i + 1)\<rparr>))"
    using "0.prems"(1) assms(4) by (rule first_descend) simp
  ultimately show ?case by (simp add: stk' nat_add_distrib)
next
  case (Suc h)
  then obtain i rest where stk: "stk = frame b pg i # rest" and i: "0 \<le> i" "i < int (cnt b pg)"
    and rest: "path_ok b h (child b pg (nat i)) rest" by auto
  have kid: "btree b h (child b pg (nat i))" using Suc.prems(1) i by (intro btree_child) simp_all
  show ?case
  proof (cases "advance b h (child b pg (nat i)) rest")
    case (Some rest')
    with Suc.prems(3) have stk': "stk' = frame b pg i # rest'" by (simp add: stk)
    from Suc.IH [OF kid rest Some, of "pre @ [frame b pg i]"]
    show ?thesis by (simp add: stk stk')
  next
    case None
    with Suc.prems(3) have lt: "i < int (cnt b pg) - 1"
      and stk': "stk' = descend b (Suc h) pg (i + 1)"
      by (simp_all add: stk split: if_splits)
    have "move_up ((pre @ [frame b pg i]) @ rest) (length (pre @ [frame b pg i]) + length rest) =
          move_up ((pre @ [frame b pg i]) @ rest) (length (pre @ [frame b pg i]))"
      using kid rest None by (rule move_up_none)
    then have "move_up (pre @ stk) (length pre + length stk) = move_up (pre @ stk) (Suc (length pre))"
      by (simp add: stk)
    also have "\<dots> = Inr (pre @ frame b pg (i + 1) # rest, int (length pre))"
      unfolding stk using move_up_frame [of b pg pre i rest] lt Suc.prems(1) by simp
    finally have up: "move_up (pre @ stk) (length pre + length stk) =
        Inr (pre @ frame b pg (i + 1) # rest, int (length pre))" .
    have "first (c\<lparr>stack := pre @ [frame b pg (i + 1)]\<rparr>) =
        Some (Inr (c\<lparr>stack := pre @ descend b (Suc h) pg (i + 1)\<rparr>))"
      using Suc.prems(1) assms(4) by (rule first_descend) (use i lt in simp)
    with up show ?thesis by (simp add: stk' nat_add_distrib)
  qed
qed

subsection \<open>Slots\<close>

text \<open>
  The positions that the rounds of \<open>next\<close> visit, from left to right: one slot for each
  element of a leaf, and one empty slot for a leaf without elements. \<open>slot_no\<close> is the slot
  of a path; the position behind the last element of a leaf counts as its last slot.
\<close>

primrec slots :: "bucket \<Rightarrow> nat \<Rightarrow> pgid \<Rightarrow> item option list" where
  "slots b 0 pg = (if cnt b pg = 0 then [None] else map (\<lambda>i. Some (item b pg i)) [0..<cnt b pg])"
| "slots b (Suc h) pg = concat (map (\<lambda>i. slots b h (child b pg i)) [0..<cnt b pg])"

primrec slot_no :: "bucket \<Rightarrow> nat \<Rightarrow> pgid \<Rightarrow> elemRef list \<Rightarrow> nat" where
  "slot_no b 0 pg stk = min (nat (index (hd stk))) (cnt b pg - 1)"
| "slot_no b (Suc h) pg stk =
     length (concat (map (\<lambda>j. slots b h (child b pg j)) [0..<nat (index (hd stk))])) +
     slot_no b h (child b pg (nat (index (hd stk)))) (tl stk)"

primrec leaf_of :: "bucket \<Rightarrow> nat \<Rightarrow> pgid \<Rightarrow> elemRef list \<Rightarrow> pgid" where
  "leaf_of b 0 pg stk = pg"
| "leaf_of b (Suc h) pg stk = leaf_of b h (child b pg (nat (index (hd stk)))) (tl stk)"

definition on_item :: "bucket \<Rightarrow> nat \<Rightarrow> pgid \<Rightarrow> elemRef list \<Rightarrow> bool" where
  "on_item b h pg stk \<longleftrightarrow> index (last stk) < int (cnt b (leaf_of b h pg stk))"

lemma upt_split: "i < n \<Longrightarrow> [0..<n] = [0..<i] @ i # [Suc i..<n]"
  by (metis less_imp_le_nat upt_add_eq_append upt_conv_Cons zero_le le_add_diff_inverse plus_nat.add_0)

lemma slots_split:
  "i < cnt b pg \<Longrightarrow>
   slots b (Suc h) pg =
     concat (map (\<lambda>j. slots b h (child b pg j)) [0..<i]) @ slots b h (child b pg i) @
     concat (map (\<lambda>j. slots b h (child b pg j)) [Suc i..<cnt b pg])"
  by (simp add: upt_split [of i "cnt b pg"])

lemma slots_nonempty: "btree b h pg \<Longrightarrow> slots b h pg \<noteq> []"
proof (induction h arbitrary: pg)
  case 0
  then show ?case by simp
next
  case (Suc h)
  then have c: "0 < cnt b pg" and kid: "btree b h (child b pg 0)"
    by (simp_all add: list_all_iff)
  from Suc.IH [OF kid] show ?case using slots_split [OF c, of h] by simp
qed

lemma path_top:
  assumes "btree b h pg" "path_ok b h pg stk"
  shows "stk = butlast stk @ [frame b (leaf_of b h pg stk) (index (last stk))] \<and>
         leaf_at b (leaf_of b h pg stk) \<and> 0 \<le> index (last stk) \<and>
         index (last stk) \<le> int (cnt b (leaf_of b h pg stk))"
  using assms
proof (induction h arbitrary: pg stk)
  case 0
  then show ?case by auto
next
  case (Suc h)
  then obtain i rest where stk: "stk = frame b pg i # rest" and i: "0 \<le> i" "i < int (cnt b pg)"
    and rest: "path_ok b h (child b pg (nat i)) rest" by auto
  have kid: "btree b h (child b pg (nat i))" using Suc.prems(1) i by (intro btree_child) simp_all
  have ne: "rest \<noteq> []" using path_ok_length [OF rest] by auto
  from Suc.IH [OF kid rest] ne show ?case by (simp add: stk)
qed

lemma slot_no_less:
  assumes "btree b h pg" "path_ok b h pg stk"
  shows "slot_no b h pg stk < length (slots b h pg)"
  using assms
proof (induction h arbitrary: pg stk)
  case 0
  then show ?case by auto
next
  case (Suc h)
  then obtain i rest where stk: "stk = frame b pg i # rest" and i: "0 \<le> i" "i < int (cnt b pg)"
    and rest: "path_ok b h (child b pg (nat i)) rest" by auto
  have kid: "btree b h (child b pg (nat i))" using Suc.prems(1) i by (intro btree_child) simp_all
  have ni: "nat i < cnt b pg" using i by simp
  from Suc.IH [OF kid rest] show ?case
    unfolding slots_split [OF ni] by (simp add: stk)
qed

lemma slot_at:
  assumes "btree b h pg" "path_ok b h pg stk"
  shows "slots b h pg ! slot_no b h pg stk =
           (if cnt b (leaf_of b h pg stk) = 0 then None
            else Some (item b (leaf_of b h pg stk)
                         (min (nat (index (last stk))) (cnt b (leaf_of b h pg stk) - 1))))"
  using assms
proof (induction h arbitrary: pg stk)
  case 0
  then show ?case by auto
next
  case (Suc h)
  then obtain i rest where stk: "stk = frame b pg i # rest" and i: "0 \<le> i" "i < int (cnt b pg)"
    and rest: "path_ok b h (child b pg (nat i)) rest" by auto
  have kid: "btree b h (child b pg (nat i))" using Suc.prems(1) i by (intro btree_child) simp_all
  have ni: "nat i < cnt b pg" using i by simp
  have ne: "rest \<noteq> []" using path_ok_length [OF rest] by auto
  have less: "slot_no b h (child b pg (nat i)) rest < length (slots b h (child b pg (nat i)))"
    using kid rest by (rule slot_no_less)
  from Suc.IH [OF kid rest] less ne show ?case
    unfolding slots_split [OF ni] by (simp add: stk nth_append)
qed

lemma descend_path:
  assumes "btree b h pg" "0 \<le> i" "if h = 0 then i \<le> int (cnt b pg) else i < int (cnt b pg)"
  shows "path_ok b h pg (descend b h pg i)"
  using assms
proof (induction h arbitrary: pg i)
  case 0
  then show ?case by simp
next
  case (Suc h)
  then have i: "0 \<le> i" "i < int (cnt b pg)" by simp_all
  have kid: "btree b h (child b pg (nat i))" using Suc.prems(1) i by (intro btree_child) simp_all
  have "path_ok b h (child b pg (nat i)) (descend b h (child b pg (nat i)) 0)"
    using kid btree_cases [OF kid] by (intro Suc.IH) auto
  with i show ?case by simp
qed

lemma descend_slot:
  "slot_no b h pg (descend b h pg i) =
     (case h of
        0 \<Rightarrow> min (nat i) (cnt b pg - 1)
      | Suc h' \<Rightarrow> length (concat (map (\<lambda>j. slots b h' (child b pg j)) [0..<nat i])))"
proof (induction h arbitrary: pg i)
  case 0
  show ?case by simp
next
  case (Suc h)
  have "slot_no b h (child b pg (nat i)) (descend b h (child b pg (nat i)) 0) = 0"
    unfolding Suc.IH by (cases h) simp_all
  then show ?case by simp
qed

lemma descend_last: "index (last (descend b h pg i)) = (if h = 0 then i else 0)"
proof (induction h arbitrary: pg i)
  case 0
  show ?case by simp
next
  case (Suc h)
  have "descend b h (child b pg (nat i)) 0 \<noteq> []" by (cases h) simp_all
  with Suc.IH [of "child b pg (nat i)" 0] show ?case by simp
qed

lemma advance_none:
  assumes "btree b h pg" "path_ok b h pg stk" "advance b h pg stk = None"
  shows "Suc (slot_no b h pg stk) = length (slots b h pg)"
  using assms
proof (induction h arbitrary: pg stk)
  case 0
  then obtain i where stk: "stk = [frame b pg i]" and i: "0 \<le> i" "i \<le> int (cnt b pg)" by auto
  from 0 have "\<not> i < int (cnt b pg) - 1" by (simp add: stk split: if_splits)
  with i show ?case by (auto simp: stk)
next
  case (Suc h)
  then obtain i rest where stk: "stk = frame b pg i # rest" and i: "0 \<le> i" "i < int (cnt b pg)"
    and rest: "path_ok b h (child b pg (nat i)) rest" by auto
  have kid: "btree b h (child b pg (nat i))" using Suc.prems(1) i by (intro btree_child) simp_all
  from Suc.prems(3) have none: "advance b h (child b pg (nat i)) rest = None"
    and last: "\<not> i < int (cnt b pg) - 1"
    by (simp_all add: stk split: option.splits if_splits)
  from last i have c: "cnt b pg = Suc (nat i)" by simp
  from Suc.IH [OF kid rest none] show ?case
    by (simp add: stk c)
qed

lemma advance_some:
  assumes "btree b h pg" "path_ok b h pg stk" "advance b h pg stk = Some stk'"
  shows "path_ok b h pg stk' \<and> slot_no b h pg stk' = Suc (slot_no b h pg stk) \<and>
         (cnt b (leaf_of b h pg stk') = 0 \<or> on_item b h pg stk')"
  using assms
proof (induction h arbitrary: pg stk stk')
  case 0
  then obtain i where stk: "stk = [frame b pg i]" and i: "0 \<le> i" "i \<le> int (cnt b pg)" by auto
  from 0 have lt: "i < int (cnt b pg) - 1" and stk': "stk' = [frame b pg (i + 1)]"
    by (simp_all add: stk split: if_splits)
  with i show ?case by (auto simp: stk on_item_def)
next
  case (Suc h)
  then obtain i rest where stk: "stk = frame b pg i # rest" and i: "0 \<le> i" "i < int (cnt b pg)"
    and rest: "path_ok b h (child b pg (nat i)) rest" by auto
  have kid: "btree b h (child b pg (nat i))" using Suc.prems(1) i by (intro btree_child) simp_all
  show ?case
  proof (cases "advance b h (child b pg (nat i)) rest")
    case (Some rest')
    with Suc.prems(3) have stk': "stk' = frame b pg i # rest'" by (simp add: stk)
    from Suc.IH [OF kid rest Some] have ih: "path_ok b h (child b pg (nat i)) rest'"
      "slot_no b h (child b pg (nat i)) rest' = Suc (slot_no b h (child b pg (nat i)) rest)"
      "cnt b (leaf_of b h (child b pg (nat i)) rest') = 0 \<or> on_item b h (child b pg (nat i)) rest'"
      by simp_all
    have ne: "rest' \<noteq> []" using path_ok_length [OF ih(1)] by auto
    from ih ne i show ?thesis by (auto simp: stk stk' on_item_def)
  next
    case None
    with Suc.prems(3) have lt: "i < int (cnt b pg) - 1"
      and stk': "stk' = descend b (Suc h) pg (i + 1)"
      by (simp_all add: stk split: if_splits)
    have p: "path_ok b (Suc h) pg stk'"
      unfolding stk' using Suc.prems(1) i lt by (intro descend_path) simp_all
    have full: "Suc (slot_no b h (child b pg (nat i)) rest) = length (slots b h (child b pg (nat i)))"
      using kid rest None by (rule advance_none)
    have n: "nat (i + 1) = Suc (nat i)" using i by simp
    have s: "slot_no b (Suc h) pg stk' = Suc (slot_no b (Suc h) pg stk)"
      unfolding stk' descend_slot using full by (simp add: stk n)
    have "index (last stk') = 0" unfolding stk' descend_last by simp
    then have "cnt b (leaf_of b (Suc h) pg stk') = 0 \<or> on_item b (Suc h) pg stk'"
      by (auto simp: on_item_def)
    with p s show ?thesis by simp
  qed
qed

subsection \<open>next\<close>

definition kv3 :: "item \<Rightarrow> kv" where
  "kv3 x = (case x of (k, v, fl) \<Rightarrow> (Some k, Some v, fl))"

lemma next_elem_round:
  assumes "btree b h pg" "path_ok b h pg (stack c)" "bucket c = b"
  shows "next_elem c =
     (case advance b h pg (stack c) of
        None \<Rightarrow> Some (Inr (c, (None, None, 0)))
      | Some stk' \<Rightarrow>
          if cnt b (leaf_of b h pg stk') = 0 then next_elem (c\<lparr>stack := stk'\<rparr>)
          else Some (Inr (c\<lparr>stack := stk'\<rparr>,
                          kv3 (item b (leaf_of b h pg stk') (nat (index (last stk')))))))"
proof (cases "advance b h pg (stack c)")
  case None
  have "move_up (stack c) (length (stack c)) = Inr (stack c, - 1)"
    using move_up_none [OF assms(1,2) None, of "[]"] by simp
  then show ?thesis unfolding None by (subst next_elem.simps) simp
next
  case (Some stk')
  from move_up_some [OF assms(1,2) Some assms(3), of "[]"] obtain stk2 k where
    up: "move_up (stack c) (length (stack c)) = Inr (stk2, int k)" and
    fi: "first (c\<lparr>stack := take (nat (int k + 1)) stk2\<rparr>) = Some (Inr (c\<lparr>stack := stk'\<rparr>))"
    by auto
  from advance_some [OF assms(1,2) Some] have p': "path_ok b h pg stk'"
    and it: "cnt b (leaf_of b h pg stk') = 0 \<or> on_item b h pg stk'" by simp_all
  let ?L = "leaf_of b h pg stk'"
  from path_top [OF assms(1) p'] have top: "stk' = butlast stk' @ [frame b ?L (index (last stk'))]"
    and leaf: "leaf_at b ?L" and pos: "0 \<le> index (last stk')" by simp_all
  have t: "top (c\<lparr>stack := stk'\<rparr>) = Inr (frame b ?L (index (last stk')))"
    by (subst top) simp
  have kv: "keyValue (c\<lparr>stack := stk'\<rparr>) = Inr (kv3 (item b ?L (nat (index (last stk')))))"
    if "cnt b ?L \<noteq> 0"
  proof -
    from that it have "index (last stk') < int (cnt b ?L)" by (simp add: on_item_def)
    with leaf pos have "keyValue (c\<lparr>stack := butlast stk' @ [frame b ?L (index (last stk'))]\<rparr>) =
        Inr (case item b ?L (nat (index (last stk'))) of (k, v, fl) \<Rightarrow> (Some k, Some v, fl))"
      by (rule keyValue_item)
    then show ?thesis using top by (simp add: kv3_def)
  qed
  show ?thesis
    unfolding Some
    by (subst next_elem.simps) (simp add: up fi t leaf kv)
qed

lemma next_elem_slots:
  assumes "btree b h pg" "path_ok b h pg (stack c)" "bucket c = b"
  shows "\<exists>c'. bucket c' = b \<and> path_ok b h pg (stack c') \<and>
     (case dropWhile (\<lambda>x. x = None) (drop (Suc (slot_no b h pg (stack c))) (slots b h pg)) of
        [] \<Rightarrow> next_elem c = Some (Inr (c', (None, None, 0))) \<and>
              Suc (slot_no b h pg (stack c')) = length (slots b h pg)
      | x # xs \<Rightarrow> next_elem c = Some (Inr (c', kv3 (the x))) \<and> on_item b h pg (stack c') \<and>
              slots b h pg ! slot_no b h pg (stack c') = x \<and>
              Suc (slot_no b h pg (stack c')) + length xs = length (slots b h pg))"
  using assms(2,3)
proof (induction "length (slots b h pg) - slot_no b h pg (stack c)" arbitrary: c rule: less_induct)
  case less
  let ?S = "slots b h pg"
  let ?p = "slot_no b h pg (stack c)"
  note round = next_elem_round [OF assms(1) less.prems]
  show ?case
  proof (cases "advance b h pg (stack c)")
    case None
    then have full: "Suc ?p = length ?S" using assms(1) less.prems(1) by (intro advance_none)
    with None less.prems show ?thesis
      by (intro exI [of _ c]) (simp add: round)
  next
    case (Some stk')
    from advance_some [OF assms(1) less.prems(1) Some] have p': "path_ok b h pg stk'"
      and q: "slot_no b h pg stk' = Suc ?p"
      and it: "cnt b (leaf_of b h pg stk') = 0 \<or> on_item b h pg stk'" by simp_all
    let ?L = "leaf_of b h pg stk'"
    have qless: "Suc ?p < length ?S" using slot_no_less [OF assms(1) p'] q by simp
    then have dr: "drop (Suc ?p) ?S = ?S ! Suc ?p # drop (Suc (Suc ?p)) ?S"
      by (simp add: Cons_nth_drop_Suc)
    have at: "?S ! Suc ?p =
        (if cnt b ?L = 0 then None
         else Some (item b ?L (min (nat (index (last stk'))) (cnt b ?L - 1))))"
      using slot_at [OF assms(1) p'] q by simp
    show ?thesis
    proof (cases "cnt b ?L = 0")
      case True
      have ih: "\<exists>c'. bucket c' = b \<and> path_ok b h pg (stack c') \<and>
         (case dropWhile (\<lambda>x. x = None) (drop (Suc (Suc ?p)) ?S) of
            [] \<Rightarrow> next_elem (c\<lparr>stack := stk'\<rparr>) = Some (Inr (c', (None, None, 0))) \<and>
                  Suc (slot_no b h pg (stack c')) = length ?S
          | x # xs \<Rightarrow> next_elem (c\<lparr>stack := stk'\<rparr>) = Some (Inr (c', kv3 (the x))) \<and>
                  on_item b h pg (stack c') \<and> ?S ! slot_no b h pg (stack c') = x \<and>
                  Suc (slot_no b h pg (stack c')) + length xs = length ?S)"
        using less.hyps [of "c\<lparr>stack := stk'\<rparr>"] qless q p' less.prems(2) by simp
      have e1: "next_elem c = next_elem (c\<lparr>stack := stk'\<rparr>)"
        using True by (simp add: round Some)
      have e2: "dropWhile (\<lambda>x. x = None) (drop (Suc ?p) ?S) =
                dropWhile (\<lambda>x. x = None) (drop (Suc (Suc ?p)) ?S)"
        unfolding dr using at True by simp
      show ?thesis unfolding e1 e2 by (rule ih)
    next
      case False
      with it have on: "on_item b h pg stk'" by simp
      then have "min (nat (index (last stk'))) (cnt b ?L - 1) = nat (index (last stk'))"
        by (simp add: on_item_def)
      with at False have at': "?S ! Suc ?p = Some (item b ?L (nat (index (last stk'))))" by simp
      have res: "next_elem c =
          Some (Inr (c\<lparr>stack := stk'\<rparr>, kv3 (item b ?L (nat (index (last stk'))))))"
        using False by (simp add: round Some)
      have dw: "dropWhile (\<lambda>x. x = None) (drop (Suc ?p) ?S) =
                  Some (item b ?L (nat (index (last stk')))) # drop (Suc (Suc ?p)) ?S"
        unfolding dr at' by simp
      show ?thesis
        using res on p' q at' qless less.prems(2)
        by (intro exI [of _ "c\<lparr>stack := stk'\<rparr>"]) (simp add: dw)
    qed
  qed
qed

subsection \<open>search\<close>

lemma set_top_index_append [simp]:
  "set_top_index (c\<lparr>stack := pre @ [r]\<rparr>) i = Inr (c\<lparr>stack := pre @ [r\<lparr>index := i\<rparr>]\<rparr>)"
  by (simp add: set_top_index_def)

lemma nsearch_frame:
  assumes "leaf_at b pg"
  shows "nsearch (c\<lparr>stack := pre @ [frame b pg i]\<rparr>) key =
           Inr (c\<lparr>stack := pre @ [frame b pg (int (Search (cnt b pg) (\<lambda>j. key \<le> fst (item b pg j))))]\<rparr>)"
proof (cases "snd (pageNode b pg)")
  case (Some n)
  then have "(\<lambda>j. Compare (ikey (inodes n ! j)) key \<noteq> - 1) = (\<lambda>j. key \<le> fst (item b pg j))"
    by (simp add: Compare_ge item_def)
  with Some show ?thesis by (simp add: nsearch_def cnt_def)
next
  case None
  with assms obtain p where p: "fst (pageNode b pg) = Some p"
    by (auto simp: leaf_at_def ref_isLeaf_def split: option.splits)
  with None have "(\<lambda>j. Compare (lkey (as_leaf (ptr p) j)) key \<noteq> - 1) = (\<lambda>j. key \<le> fst (item b pg j))"
    by (simp add: Compare_ge item_def)
  with None p show ?thesis by (simp add: nsearch_def cnt_def)
qed

lemma search_leaf:
  assumes "leaf_at b pg" "bucket c = b"
  shows "search c key pg =
           Some (Inr (c\<lparr>stack := stack c @
                        [frame b pg (int (Search (cnt b pg) (\<lambda>j. key \<le> fst (item b pg j))))]\<rparr>))"
proof -
  obtain p n where pn: "pageNode b pg = (p, n)" by (cases "pageNode b pg")
  have ok: "(case p of None \<Rightarrow> None
             | Some pg' \<Rightarrow> if flags pg' AND (branchPageFlag OR leafPageFlag) = 0
                          then Some (InvalidPageType (pid pg') (flags pg')) else None) = None"
    using assms(1) pn by (auto simp: leaf_at_def page_type_ok_def split: option.splits)
  have e: "\<lparr>page = p, node = n, index = 0\<rparr> = frame b pg 0" using pn by (rule frame_eq)
  show ?thesis
    by (subst search_calls) (simp add: assms pn ok e nsearch_frame)
qed

lemma sep_node: "snd (pageNode b pg) = Some n \<Longrightarrow> node_keys n = map (sep b pg) [0..<cnt b pg]"
  by (simp add: node_keys_upt sep_def cnt_def)

lemma sep_page:
  "snd (pageNode b pg) = None \<Longrightarrow> fst (pageNode b pg) = Some p \<Longrightarrow>
   page_keys p = map (sep b pg) [0..<cnt b pg]"
  by (simp add: page_keys_def sep_def cnt_def)

lemma search_branch:
  assumes "branch_at b pg" "0 < cnt b pg" "sorted_wrt (<) (map (sep b pg) [0..<cnt b pg])"
    "bucket c = b"
  shows "\<exists>i < cnt b pg. rightmost_le (map (sep b pg) [0..<cnt b pg]) key i \<and>
           search c key pg = search (c\<lparr>stack := stack c @ [frame b pg (int i)]\<rparr>) key (child b pg i)"
proof -
  obtain p n where pn: "pageNode b pg = (p, n)" by (cases "pageNode b pg")
  have ok: "(case p of None \<Rightarrow> None
             | Some pg' \<Rightarrow> if flags pg' AND (branchPageFlag OR leafPageFlag) = 0
                          then Some (InvalidPageType (pid pg') (flags pg')) else None) = None"
    using assms(1) pn by (auto simp: branch_at_def page_type_ok_def split: option.splits)
  have e: "\<lparr>page = p, node = n, index = 0\<rparr> = frame b pg 0" using pn by (rule frame_eq)
  let ?c = "c\<lparr>stack := stack c @ [frame b pg 0]\<rparr>"
  let ?ks = "map (sep b pg) [0..<cnt b pg]"
  have ne: "?ks \<noteq> []" using assms(2) by simp
  show ?thesis
  proof (cases n)
    case (Some nd)
    have ks: "node_keys nd = ?ks" using pn Some by (intro sep_node) simp
    have s: "search c key pg = searchNode ?c key nd"
      by (subst search_calls) (simp add: assms pn ok e, simp add: Some)
    let ?i = "searchNode_index key nd"
    have idx: "?i = branch_index_spec ?ks key"
      using assms(3) by (simp add: searchNode_index_spec ks)
    have right: "rightmost_le ?ks key ?i"
      unfolding idx using assms(3) ne by (rule branch_index_rightmost)
    then have lt: "?i < cnt b pg" by (simp add: rightmost_le_def)
    then have "?i < length (inodes nd)" using pn Some by (simp add: cnt_def)
    then have "searchNode ?c key nd =
        search (?c\<lparr>stack := butlast (stack ?c) @ [(last (stack ?c))\<lparr>index := int ?i\<rparr>]\<rparr>)
          key (ipgid (inodes nd ! ?i))"
      by (intro searchNode_step) simp_all
    moreover have "ipgid (inodes nd ! ?i) = child b pg ?i" using pn Some by (simp add: child_def)
    ultimately have "search c key pg =
        search (c\<lparr>stack := stack c @ [frame b pg (int ?i)]\<rparr>) key (child b pg ?i)"
      using s by simp
    with right lt show ?thesis by blast
  next
    case None
    with assms(1) pn obtain pg' where p: "p = Some pg'"
      by (auto simp: branch_at_def ref_isLeaf_def split: option.splits)
    have ks: "page_keys pg' = ?ks" using pn None p by (intro sep_page) simp_all
    have s: "search c key pg = searchPage ?c key pg'"
      by (subst search_calls) (simp add: assms pn ok e, simp add: None p)
    let ?i = "searchPage_index key pg'"
    have idx: "?i = branch_index_spec ?ks key"
      using assms(3) by (simp add: searchPage_index_spec ks)
    have right: "rightmost_le ?ks key ?i"
      unfolding idx using assms(3) ne by (rule branch_index_rightmost)
    then have lt: "?i < cnt b pg" by (simp add: rightmost_le_def)
    have "pcount pg' \<noteq> 0" using assms(2) pn None p by (auto simp: cnt_def)
    then have "searchPage ?c key pg' =
        search (?c\<lparr>stack := butlast (stack ?c) @ [(last (stack ?c))\<lparr>index := int ?i\<rparr>]\<rparr>)
          key (bpgid (as_branch (ptr pg') ?i))"
      by (intro searchPage_step) simp_all
    moreover have "bpgid (as_branch (ptr pg') ?i) = child b pg ?i"
      using pn None p by (simp add: child_def)
    ultimately have "search c key pg =
        search (c\<lparr>stack := stack c @ [frame b pg (int ?i)]\<rparr>) key (child b pg ?i)"
      using s by simp
    with right lt show ?thesis by blast
  qed
qed

text \<open>
  Where \<open>search\<close> stops: at a position \<open>pos\<close> in the slots with every key to the left below
  the search key and every key from there on not below it.
\<close>

definition split_at :: "item option list \<Rightarrow> nat \<Rightarrow> bytes \<Rightarrow> bool" where
  "split_at S p k \<longleftrightarrow>
     (\<forall>x. Some x \<in> set (take p S) \<longrightarrow> fst x < k) \<and> (\<forall>x. Some x \<in> set (drop p S) \<longrightarrow> k \<le> fst x)"

definition pos :: "bucket \<Rightarrow> nat \<Rightarrow> pgid \<Rightarrow> elemRef list \<Rightarrow> nat" where
  "pos b h pg stk = (if on_item b h pg stk then slot_no b h pg stk else Suc (slot_no b h pg stk))"

lemma some_in_slots: "Some x \<in> set (slots b h pg) \<longleftrightarrow> x \<in> set (tree_items b h pg)"
  by (induction h arbitrary: pg) auto

lemma sorted_sep:
  "sorted_wrt (<) (map (sep b pg) [0..<cnt b pg]) \<Longrightarrow> i \<le> j \<Longrightarrow> j < cnt b pg \<Longrightarrow>
   sep b pg i \<le> sep b pg j"
  using sorted_upt_keys [of "sep b pg" "cnt b pg" i j] by (cases "i = j") auto

lemma search_path:
  assumes "btree b h pg" "tree_sorted b h pg" "bucket c = b"
  shows "\<exists>stk. search c key pg = Some (Inr (c\<lparr>stack := stack c @ stk\<rparr>)) \<and>
           path_ok b h pg stk \<and> split_at (slots b h pg) (pos b h pg stk) key"
  using assms
proof (induction h arbitrary: pg c)
  case 0
  let ?k = "\<lambda>j. fst (item b pg j)"
  let ?n = "cnt b pg"
  let ?i = "Search ?n (\<lambda>j. key \<le> ?k j)"
  from 0 have leaf: "leaf_at b pg" by simp
  have sorted: "sorted_wrt (<) (map ?k [0..<?n])"
    using "0.prems"(2) by (simp add: comp_def)
  have le: "?i \<le> ?n" by (rule Search_le)
  have mono: "key \<le> ?k i \<Longrightarrow> key \<le> ?k j" if "i \<le> j" "j < ?n" for i j
    using sorted_upt_keys [OF sorted, of i j] that by (cases "i = j") auto
  have below: "\<forall>j < ?i. \<not> key \<le> ?k j"
    by (rule Search_mono_least) (use mono in blast)
  have above: "key \<le> ?k j" if "?i \<le> j" "j < ?n" for j
  proof -
    from that have "?i < ?n" by simp
    then have "key \<le> ?k ?i" by (rule Search_hit)
    with mono [OF that] show ?thesis .
  qed
  have s: "search c key pg = Some (Inr (c\<lparr>stack := stack c @ [frame b pg (int ?i)]\<rparr>))"
    using leaf "0.prems"(3) by (rule search_leaf)
  have p: "path_ok b 0 pg [frame b pg (int ?i)]" using le by simp
  have "split_at (slots b 0 pg) (pos b 0 pg [frame b pg (int ?i)]) key"
  proof (cases "?n = 0")
    case True
    then show ?thesis by (auto simp: split_at_def dest: in_set_takeD in_set_dropD)
  next
    case False
    have ps: "pos b 0 pg [frame b pg (int ?i)] = ?i"
      using le False by (auto simp: pos_def on_item_def)
    have "fst x < key" if "Some x \<in> set (take ?i (slots b 0 pg))" for x
    proof -
      from that False le obtain j where "j < ?i" "x = item b pg j"
        by (auto simp: take_map)
      with below show ?thesis by auto
    qed
    moreover have "key \<le> fst x" if "Some x \<in> set (drop ?i (slots b 0 pg))" for x
    proof -
      from that False obtain j where "?i \<le> j" "j < ?n" "x = item b pg j"
        by (auto simp: drop_map)
      with above show ?thesis by auto
    qed
    ultimately show ?thesis unfolding ps split_at_def by blast
  qed
  with s p show ?case by blast
next
  case (Suc h)
  let ?n = "cnt b pg"
  let ?f = "\<lambda>j. slots b h (child b pg j)"
  from Suc.prems have br: "branch_at b pg" and n: "0 < ?n"
    and seps: "sorted_wrt (<) (map (sep b pg) [0..<?n])" by simp_all
  from search_branch [OF br n seps Suc.prems(3), of key] obtain i where i: "i < ?n"
    and right: "rightmost_le (map (sep b pg) [0..<?n]) key i"
    and s: "search c key pg = search (c\<lparr>stack := stack c @ [frame b pg (int i)]\<rparr>) key (child b pg i)"
    by blast
  have kid: "btree b h (child b pg i)" using Suc.prems(1) i by (rule btree_child)
  have kid_sorted: "tree_sorted b h (child b pg j)"
    and bounds: "\<And>x. x \<in> set (tree_items b h (child b pg j)) \<Longrightarrow>
        (0 < j \<longrightarrow> sep b pg j \<le> fst x) \<and> (j + 1 < ?n \<longrightarrow> fst x < sep b pg (j + 1))"
    if "j < ?n" for j
    using Suc.prems(2) that by (auto simp: list_all_iff)
  from Suc.IH [OF kid kid_sorted [OF i], of "c\<lparr>stack := stack c @ [frame b pg (int i)]\<rparr>"] Suc.prems(3)
  obtain stk where
    s': "search (c\<lparr>stack := stack c @ [frame b pg (int i)]\<rparr>) key (child b pg i) =
           Some (Inr (c\<lparr>stack := (stack c @ [frame b pg (int i)]) @ stk\<rparr>))"
    and p': "path_ok b h (child b pg i) stk"
    and sp: "split_at (?f i) (pos b h (child b pg i) stk) key"
    by auto
  let ?stk = "frame b pg (int i) # stk"
  let ?P = "concat (map ?f [0..<i])"
  let ?Q = "concat (map ?f [Suc i..<?n])"
  let ?p = "pos b h (child b pg i) stk"
  have ne: "stk \<noteq> []" using path_ok_length [OF p'] by auto
  have S: "slots b (Suc h) pg = ?P @ ?f i @ ?Q" using i by (rule slots_split)
  have path: "path_ok b (Suc h) pg ?stk" using i p' by simp
  have ps: "pos b (Suc h) pg ?stk = length ?P + ?p"
    using ne by (simp add: pos_def on_item_def)
  have ple: "?p \<le> length (?f i)"
    using slot_no_less [OF kid p'] by (simp add: pos_def)
  have tk: "take (length ?P + ?p) (slots b (Suc h) pg) = ?P @ take ?p (?f i)"
    unfolding S using ple by simp
  have dr: "drop (length ?P + ?p) (slots b (Suc h) pg) = drop ?p (?f i) @ ?Q"
    unfolding S using ple by simp
  have ks: "map (sep b pg) [0..<?n] ! j = sep b pg j" if "j < ?n" for j using that by simp
  have left: "fst x < key" if "Some x \<in> set ?P" for x
  proof -
    from that obtain j where j: "j < i" and "Some x \<in> set (?f j)" by auto
    then have x: "x \<in> set (tree_items b h (child b pg j))" by (simp add: some_in_slots)
    have "j < ?n" "j + 1 < ?n" using j i by simp_all
    with bounds [OF _ x] have "fst x < sep b pg (j + 1)" by simp
    also have "sep b pg (j + 1) \<le> sep b pg i" using seps j i by (intro sorted_sep) simp_all
    also have "sep b pg i \<le> key"
      using right j i by (auto simp: rightmost_le_def)
    finally show ?thesis .
  qed
  have rgt: "key \<le> fst x" if "Some x \<in> set ?Q" for x
  proof -
    from that obtain j where j: "i < j" "j < ?n" and "Some x \<in> set (?f j)"
      by (auto simp: Suc_le_eq)
    then have x: "x \<in> set (tree_items b h (child b pg j))" by (simp add: some_in_slots)
    from bounds [OF j(2) x] j have "sep b pg j \<le> fst x" by simp
    moreover have "\<not> sep b pg j \<le> key"
      using right j by (auto simp: rightmost_le_def)
    ultimately show ?thesis by simp
  qed
  have "split_at (slots b (Suc h) pg) (pos b (Suc h) pg ?stk) key"
    unfolding ps split_at_def tk dr using sp left rgt by (auto simp: split_at_def)
  with s s' path show ?case by (intro exI [of _ ?stk]) simp
qed

subsection \<open>Seek\<close>

lemma items_slots: "tree_items b h pg = map the (filter (\<lambda>x. x \<noteq> None) (slots b h pg))"
proof (induction h arbitrary: pg)
  case 0
  show ?case by (simp add: filter_map comp_def del: not_None_eq)
next
  case (Suc h)
  show ?case by (simp add: Suc.IH filter_concat map_concat comp_def del: not_None_eq)
qed

lemma filter_dropWhile_None:
  "filter (\<lambda>x. x \<noteq> None) (dropWhile (\<lambda>x. x = None) T) = filter (\<lambda>x. x \<noteq> None) T"
  by (induction T) (simp_all del: not_None_eq)

lemma seek_spec_split:
  assumes "split_at S p k"
  shows "seek_spec (map the (filter (\<lambda>x. x \<noteq> None) S)) k =
           (case dropWhile (\<lambda>x. x = None) (drop p S) of [] \<Rightarrow> (None, None) | x # _ \<Rightarrow> returned (the x))"
proof -
  define D where "D = dropWhile (\<lambda>x. x = None) (drop p S)"
  define A where "A = map the (filter (\<lambda>x. x \<noteq> None) (take p S))"
  define B where "B = map the (filter (\<lambda>x. x \<noteq> None) D)"
  have "map the (filter (\<lambda>x. x \<noteq> None) S) =
        A @ map the (filter (\<lambda>x. x \<noteq> None) (drop p S))"
    unfolding A_def by (metis append_take_drop_id filter_append map_append)
  then have S: "map the (filter (\<lambda>x. x \<noteq> None) S) = A @ B"
    unfolding B_def D_def by (simp only: filter_dropWhile_None)
  have A: "fst x < k" if "x \<in> set A" for x
  proof -
    from that obtain y where "y \<in> set (take p S)" "y \<noteq> None" "x = the y"
      unfolding A_def by auto
    then have "Some x \<in> set (take p S)" by auto
    with assms show ?thesis unfolding split_at_def by blast
  qed
  have B: "k \<le> fst x" if "x \<in> set B" for x
  proof -
    from that obtain y where "y \<in> set D" "y \<noteq> None" "x = the y"
      unfolding B_def by auto
    then have "Some x \<in> set (drop p S)" unfolding D_def by (auto dest: set_dropWhileD)
    with assms show ?thesis unfolding split_at_def by blast
  qed
  have "dropWhile (\<lambda>x. fst x < k) (A @ B) = dropWhile (\<lambda>x. fst x < k) B"
    using A by (intro dropWhile_append2) simp
  also have "\<dots> = B"
  proof (cases B)
    case Nil
    then show ?thesis by simp
  next
    case (Cons x xs)
    then have "x \<in> set B" by simp
    then have "\<not> fst x < k" using B by (simp add: not_less)
    then show ?thesis by (simp add: Cons)
  qed
  finally have dw: "dropWhile (\<lambda>x. fst x < k) (map the (filter (\<lambda>x. x \<noteq> None) S)) = B"
    unfolding S .
  show ?thesis
  proof (cases D)
    case Nil
    then have "B = []" by (simp add: B_def)
    with Nil show ?thesis unfolding seek_spec_def dw D_def [symmetric] by simp
  next
    case (Cons x xs)
    have "\<not> hd D = None"
      unfolding D_def using Cons hd_dropWhile [of "\<lambda>x. x = None" "drop p S"]
      by (simp add: D_def)
    then have "x \<noteq> None" using Cons by simp
    then have "B = the x # map the (filter (\<lambda>x. x \<noteq> None) xs)"
      unfolding B_def Cons by simp
    with Cons show ?thesis unfolding seek_spec_def dw D_def [symmetric] by simp
  qed
qed

lemma key_value_kv3 [simp]: "key_value_of (kv3 x) = returned x"
  by (simp add: key_value_of_def kv3_def returned_def split: prod.splits)

lemma Seek_result:
  assumes "btree b h (root b)" "tree_sorted b h (root b)" "tx_db b" "bucket c = b"
  shows "\<exists>c'. Seek c k = Some (Inr (c', seek_spec (tree_items b h (root b)) k)) \<and> bucket c' = b"
proof -
  let ?S = "slots b h (root b)"
  from search_path [OF assms(1,2), of "c\<lparr>stack := []\<rparr>" k] assms(4) obtain stk where
    s: "search (c\<lparr>stack := []\<rparr>) k (root b) = Some (Inr (c\<lparr>stack := stk\<rparr>))"
    and p: "path_ok b h (root b) stk"
    and sp: "split_at ?S (pos b h (root b) stk) k"
    by auto
  let ?c1 = "c\<lparr>stack := stk\<rparr>"
  let ?L = "leaf_of b h (root b) stk"
  let ?i = "index (last stk)"
  from path_top [OF assms(1) p] have top: "stk = butlast stk @ [frame b ?L ?i]"
    and leaf: "leaf_at b ?L" and i0: "0 \<le> ?i" and ile: "?i \<le> int (cnt b ?L)" by simp_all
  have t: "top ?c1 = Inr (frame b ?L ?i)" by (subst top) simp
  have spec: "seek_spec (tree_items b h (root b)) k =
      (case dropWhile (\<lambda>x. x = None) (drop (pos b h (root b) stk) ?S) of
         [] \<Rightarrow> (None, None) | x # _ \<Rightarrow> returned (the x))"
    unfolding items_slots using sp by (rule seek_spec_split)
  show ?thesis
  proof (cases "on_item b h (root b) stk")
    case True
    then have lt: "?i < int (cnt b ?L)" by (simp add: on_item_def)
    have "keyValue (c\<lparr>stack := butlast stk @ [frame b ?L ?i]\<rparr>) =
        Inr (case item b ?L (nat ?i) of (k, v, fl) \<Rightarrow> (Some k, Some v, fl))"
      using leaf i0 lt by (rule keyValue_item)
    then have kv: "keyValue ?c1 = Inr (kv3 (item b ?L (nat ?i)))"
      using top by (simp add: kv3_def)
    have sk: "seek c k = Some (Inr (?c1, kv3 (item b ?L (nat ?i))))"
      using assms(3,4) lt by (simp add: seek_def assert_open_def s t leaf kv)
    have res: "Seek c k = Some (Inr (?c1, returned (item b ?L (nat ?i))))"
      using lt by (simp add: Seek_def sk t leaf kv3_def returned_def key_value_of_def split: prod.splits)
    have ps: "pos b h (root b) stk = slot_no b h (root b) stk" using True by (simp add: pos_def)
    have less: "slot_no b h (root b) stk < length ?S" using assms(1) p by (rule slot_no_less)
    have "cnt b ?L \<noteq> 0" using lt i0 by auto
    moreover have "min (nat ?i) (cnt b ?L - 1) = nat ?i" using lt by simp
    ultimately have at: "?S ! slot_no b h (root b) stk = Some (item b ?L (nat ?i))"
      using slot_at [OF assms(1) p] by simp
    have "drop (slot_no b h (root b) stk) ?S =
            Some (item b ?L (nat ?i)) # drop (Suc (slot_no b h (root b) stk)) ?S"
      using less at by (simp add: Cons_nth_drop_Suc [symmetric])
    then have "seek_spec (tree_items b h (root b)) k = returned (item b ?L (nat ?i))"
      unfolding spec ps by simp
    with res assms(4) show ?thesis by (intro exI [of _ ?c1]) simp
  next
    case False
    then have ge: "int (cnt b ?L) \<le> ?i" by (simp add: on_item_def)
    have sk: "seek c k = Some (Inr (?c1, (None, None, 0)))"
      using assms(3,4) ge by (simp add: seek_def assert_open_def s t leaf)
    have ps: "pos b h (root b) stk = Suc (slot_no b h (root b) stk)" using False by (simp add: pos_def)
    have p1: "path_ok b h (root b) (stack ?c1)" using p by simp
    have b1: "bucket ?c1 = b" using assms(4) by simp
    from next_elem_slots [OF assms(1) p1 b1] obtain c' where c': "bucket c' = b"
      and nx: "(case dropWhile (\<lambda>x. x = None) (drop (Suc (slot_no b h (root b) stk)) ?S) of
          [] \<Rightarrow> next_elem ?c1 = Some (Inr (c', (None, None, 0))) \<and>
                Suc (slot_no b h (root b) (stack c')) = length ?S
        | x # xs \<Rightarrow> next_elem ?c1 = Some (Inr (c', kv3 (the x))) \<and> on_item b h (root b) (stack c') \<and>
                ?S ! slot_no b h (root b) (stack c') = x \<and>
                Suc (slot_no b h (root b) (stack c')) + length xs = length ?S)"
      by auto
    show ?thesis
    proof (cases "dropWhile (\<lambda>x. x = None) (drop (Suc (slot_no b h (root b) stk)) ?S)")
      case Nil
      with nx have "next_elem ?c1 = Some (Inr (c', (None, None, 0)))" by simp
      then have "Seek c k = Some (Inr (c', (None, None)))"
        using ge by (simp add: Seek_def sk t leaf)
      moreover have "seek_spec (tree_items b h (root b)) k = (None, None)"
        unfolding spec ps by (simp add: Nil)
      ultimately show ?thesis using c' by (intro exI [of _ c']) simp
    next
      case (Cons x xs)
      with nx have "next_elem ?c1 = Some (Inr (c', kv3 (the x)))" by simp
      then have "Seek c k = Some (Inr (c', returned (the x)))"
        using ge
        by (simp add: Seek_def sk t leaf kv3_def returned_def key_value_of_def split: prod.splits)
      moreover have "seek_spec (tree_items b h (root b)) k = returned (the x)"
        unfolding spec ps by (simp add: Cons)
      ultimately show ?thesis using c' by (intro exI [of _ c']) simp
    qed
  qed
qed


text \<open>The leaf keys of a sorted tree are strictly ascending from left to right.\<close>

lemma tree_sorted_items:
  assumes "tree_sorted b h pg"
  shows "sorted_wrt (<) (map fst (tree_items b h pg))"
  using assms
proof (induction h arbitrary: pg)
  case 0
  then show ?case by simp
next
  case (Suc h)
  let ?n = "cnt b pg"
  let ?f = "\<lambda>j. tree_items b h (child b pg j)"
  note outer = Suc.IH
  from Suc.prems have seps: "sorted_wrt (<) (map (sep b pg) [0..<?n])" by simp
  have kid: "tree_sorted b h (child b pg j)"
    and bounds: "\<And>x. x \<in> set (?f j) \<Longrightarrow>
        (0 < j \<longrightarrow> sep b pg j \<le> fst x) \<and> (j + 1 < ?n \<longrightarrow> fst x < sep b pg (j + 1))"
    if "j < ?n" for j
    using Suc.prems that by (auto simp: list_all_iff)
  have "sorted_wrt (<) (map fst (concat (map ?f [0..<m])))" if "m \<le> ?n" for m
    using that
  proof (induction m)
    case 0
    show ?case by simp
  next
    case (Suc m)
    then have m: "m < ?n" by simp
    have "fst x < fst y" if "x \<in> set (concat (map ?f [0..<m]))" "y \<in> set (?f m)" for x y
    proof -
      from that(1) obtain j where j: "j < m" "x \<in> set (?f j)" by auto
      then have "j < ?n" "j + 1 < ?n" using m by simp_all
      with bounds [OF _ j(2)] have "fst x < sep b pg (j + 1)" by simp
      also have "sep b pg (j + 1) \<le> sep b pg m" using seps j m by (intro sorted_sep) simp_all
      also have "sep b pg m \<le> fst y" using bounds [OF m that(2)] j by simp
      finally show ?thesis .
    qed
    moreover have "sorted_wrt (<) (map fst (?f m))" using kid [OF m] by (rule outer)
    ultimately show ?case using Suc.IH m by (simp add: sorted_wrt_append)
  qed
  then show ?case by simp
qed

lemma seek_spec_cases:
  "(seek_spec xs k = (None, None) \<and> (\<forall>x \<in> set xs. fst x < k)) \<or>
   (\<exists>as x bs. xs = as @ x # bs \<and> (\<forall>a \<in> set as. fst a < k) \<and> k \<le> fst x \<and>
      seek_spec xs k = returned x)"
proof (cases "dropWhile (\<lambda>x. fst x < k) xs")
  case Nil
  then have "\<forall>x \<in> set xs. fst x < k" by (simp add: dropWhile_eq_Nil_conv)
  moreover have "seek_spec xs k = (None, None)" by (simp add: seek_spec_def Nil)
  ultimately show ?thesis by blast
next
  case (Cons x bs)
  have "xs = takeWhile (\<lambda>x. fst x < k) xs @ x # bs"
    using takeWhile_dropWhile_id [of "\<lambda>x. fst x < k" xs] Cons by simp
  moreover have "\<forall>a \<in> set (takeWhile (\<lambda>x. fst x < k) xs). fst a < k"
    by (auto dest: set_takeWhileD)
  moreover have "k \<le> fst x"
    using hd_dropWhile [of "\<lambda>x. fst x < k" xs] Cons by (simp add: not_less)
  moreover have "seek_spec xs k = returned x" by (simp add: seek_spec_def Cons)
  ultimately show ?thesis by blast
qed

lemma seek_spec_empty_key: "seek_spec xs [] = (case xs of [] \<Rightarrow> (None, None) | x # _ \<Rightarrow> returned x)"
  by (cases xs) (simp_all add: seek_spec_def)

text \<open>
  \<^bold>\<open>C3\<close> (\<^verbatim>\<open>Cursor.Seek\<close>). On the B+tree of an open transaction, of any height \<open>h\<close>, with the
  keys in order (\<open>tree_sorted\<close>: leaf keys strictly ascending, branch keys separating the
  subtrees), \<open>Seek(k)\<close> returns, from any state of the cursor: the leaf keys from left to
  right are strictly ascending, and the result is the element with the leftmost key that
  is not below \<open>k\<close>, with its value, or with the value \<^verbatim>\<open>nil\<close> when its flags mark a
  sub-bucket, and \<open>(nil, nil)\<close> when every key of the tree is below \<open>k\<close>. For the empty key
  the result is the first element of the tree.
\<close>

theorem Seek_leftmost_ge:
  assumes "btree (bucket c) h (root (bucket c))"
    and "tree_sorted (bucket c) h (root (bucket c))"
    and "tx_db (bucket c)"
  shows "(\<exists>c'. Seek c k = Some (Inr (c', seek_spec (tree_items (bucket c) h (root (bucket c))) k)) \<and>
               bucket c' = bucket c) \<and>
         sorted_wrt (<) (map fst (tree_items (bucket c) h (root (bucket c)))) \<and>
         ((seek_spec (tree_items (bucket c) h (root (bucket c))) k = (None, None) \<and>
           (\<forall>x \<in> set (tree_items (bucket c) h (root (bucket c))). fst x < k)) \<or>
          (\<exists>as x bs. tree_items (bucket c) h (root (bucket c)) = as @ x # bs \<and>
             (\<forall>a \<in> set as. fst a < k) \<and> k \<le> fst x \<and>
             seek_spec (tree_items (bucket c) h (root (bucket c))) k = returned x)) \<and>
         seek_spec (tree_items (bucket c) h (root (bucket c))) [] =
           (case tree_items (bucket c) h (root (bucket c)) of
              [] \<Rightarrow> (None, None) | x # _ \<Rightarrow> returned x)"
proof (intro conjI)
  show "\<exists>c'. Seek c k = Some (Inr (c', seek_spec (tree_items (bucket c) h (root (bucket c))) k)) \<and>
             bucket c' = bucket c"
    using assms by (intro Seek_result) simp_all
  show "sorted_wrt (<) (map fst (tree_items (bucket c) h (root (bucket c))))"
    using assms(2) by (rule tree_sorted_items)
  show "(seek_spec (tree_items (bucket c) h (root (bucket c))) k = (None, None) \<and>
           (\<forall>x \<in> set (tree_items (bucket c) h (root (bucket c))). fst x < k)) \<or>
          (\<exists>as x bs. tree_items (bucket c) h (root (bucket c)) = as @ x # bs \<and>
             (\<forall>a \<in> set as. fst a < k) \<and> k \<le> fst x \<and>
             seek_spec (tree_items (bucket c) h (root (bucket c))) k = returned x)"
    by (rule seek_spec_cases)
  show "seek_spec (tree_items (bucket c) h (root (bucket c))) [] =
           (case tree_items (bucket c) h (root (bucket c)) of
              [] \<Rightarrow> (None, None) | x # _ \<Rightarrow> returned x)"
    by (rule seek_spec_empty_key)
qed

text \<open>
  The tree of the scenario of the specification, keys \<open>a\<close>, \<open>c\<close>, \<open>e\<close>: a branch node (page 3)
  over the leaf node \<open>[a, c]\<close> (page 4) and the leaf page \<open>[e]\<close> (page 5), whose element is a
  sub-bucket. \<open>Seek(b)\<close> gives \<open>c\<close>, \<open>Seek(d)\<close> runs off the first leaf and gives \<open>e\<close> with the
  value \<^verbatim>\<open>nil\<close>, \<open>Seek(f)\<close> gives \<open>(nil, nil)\<close>, \<open>Seek\<close> of the empty key gives \<open>a\<close>.
\<close>

definition leaf_page_e :: tpage where
  "leaf_page_e = \<lparr>pid = 5, flags = leafPageFlag, pcount = 1, overflow = 0,
     ptr = \<lparr>as_branch = (\<lambda>i. \<lparr>bkey = [], bpgid = 0\<rparr>),
            as_leaf = (\<lambda>i. \<lparr>lflags = 1, lkey = [101], lvalue = [5]\<rparr>)\<rparr>\<rparr>"

definition tree_ace :: bucket where
  "tree_ace = \<lparr>root = 3,
     pageNode = (\<lambda>pg.
       if pg = 3 then
         (None, Some \<lparr>isLeaf = False, inodes =
            [\<lparr>iflags = 0, ipgid = 4, ikey = [97], ivalue = []\<rparr>,
             \<lparr>iflags = 0, ipgid = 5, ikey = [101], ivalue = []\<rparr>]\<rparr>)
       else if pg = 4 then
         (None, Some \<lparr>isLeaf = True, inodes =
            [\<lparr>iflags = 0, ipgid = 0, ikey = [97], ivalue = [1]\<rparr>,
             \<lparr>iflags = 0, ipgid = 0, ikey = [99], ivalue = [3]\<rparr>]\<rparr>)
       else if pg = 5 then (Some leaf_page_e, None)
       else (None, None)),
     tx_db = True\<rparr>"

lemma upt_2: "[0..<2] = [0, 1]"
  by (simp add: numeral_2_eq_2)

lemma tree_ace_views:
  "cnt tree_ace 3 = 2" "cnt tree_ace 4 = 2" "cnt tree_ace 5 = 1"
  "child tree_ace 3 0 = 4" "child tree_ace 3 (Suc 0) = 5"
  "sep tree_ace 3 0 = [97]" "sep tree_ace 3 (Suc 0) = [101]"
  "item tree_ace 4 0 = ([97], [1], 0)" "item tree_ace 4 (Suc 0) = ([99], [3], 0)"
  "item tree_ace 5 0 = ([101], [5], 1)"
  "branch_at tree_ace 3" "leaf_at tree_ace 4" "leaf_at tree_ace 5"
  by (simp_all add: tree_ace_def leaf_page_e_def cnt_def child_def sep_def item_def
      branch_at_def leaf_at_def page_type_ok_def ref_isLeaf_def frame_def leafPageFlag_def
      branchPageFlag_def)

lemma tree_ace_items: "tree_items tree_ace (Suc 0) 3 = [([97], [1], 0), ([99], [3], 0), ([101], [5], 1)]"
  by (simp add: tree_ace_views upt_2)

lemma tree_ace_btree: "btree tree_ace (Suc 0) 3"
  by (simp add: tree_ace_views upt_2)

lemma tree_ace_sorted: "tree_sorted tree_ace (Suc 0) 3"
  by (simp add: tree_ace_views upt_2)

theorem Seek_leftmost_ge_witness:
  "(\<exists>c'. Seek \<lparr>bucket = tree_ace, stack = []\<rparr> [98] = Some (Inr (c', (Some [99], Some [3])))) \<and>
   (\<exists>c'. Seek \<lparr>bucket = tree_ace, stack = []\<rparr> [100] = Some (Inr (c', (Some [101], None)))) \<and>
   (\<exists>c'. Seek \<lparr>bucket = tree_ace, stack = []\<rparr> [101] = Some (Inr (c', (Some [101], None)))) \<and>
   (\<exists>c'. Seek \<lparr>bucket = tree_ace, stack = []\<rparr> [102] = Some (Inr (c', (None, None)))) \<and>
   (\<exists>c'. Seek \<lparr>bucket = tree_ace, stack = []\<rparr> [] = Some (Inr (c', (Some [97], Some [1]))))"
proof -
  let ?c = "\<lparr>bucket = tree_ace, stack = []\<rparr>"
  have r: "root tree_ace = 3" and open_tx: "tx_db tree_ace" by (simp_all add: tree_ace_def)
  have b: "bucket ?c = tree_ace" by simp
  have h: "btree (bucket ?c) (Suc 0) (root (bucket ?c))"
    "tree_sorted (bucket ?c) (Suc 0) (root (bucket ?c))" "tx_db (bucket ?c)"
    unfolding b r by (rule tree_ace_btree tree_ace_sorted open_tx)+
  have spec:
    "seek_spec [([97], [1], 0), ([99], [3], 0), ([101], [5], 1)] [98] = (Some [99], Some [3])"
    "seek_spec [([97], [1], 0), ([99], [3], 0), ([101], [5], 1)] [100] = (Some [101], None)"
    "seek_spec [([97], [1], 0), ([99], [3], 0), ([101], [5], 1)] [101] = (Some [101], None)"
    "seek_spec [([97], [1], 0), ([99], [3], 0), ([101], [5], 1)] [102] = (None, None)"
    "seek_spec [([97], [1], 0), ([99], [3], 0), ([101], [5], 1)] [] = (Some [97], Some [1])"
    by (simp_all add: seek_spec_def returned_def bucketLeafFlag_def)
  from Seek_leftmost_ge [OF h, of "[98]"] Seek_leftmost_ge [OF h, of "[100]"]
    Seek_leftmost_ge [OF h, of "[101]"] Seek_leftmost_ge [OF h, of "[102]"]
    Seek_leftmost_ge [OF h, of "[]"]
  show ?thesis
    unfolding b r tree_ace_items spec by blast
qed


end
